theory Spec2Isabelle
  imports Complex_Main
begin

section \<open>Strings and the interpreter's character tables\<close>

text \<open>
  A Python \<open>str\<close> is a sequence of Unicode code points; \<open>len\<close>, \<open>find\<close> and slicing
  count code points. The dose texts of \<open>gen.py\<close> contain the en dash U+2013, so a
  string is modelled as a list of code points. \<open>ustr\<close> turns an ASCII literal into
  such a list.
\<close>

type_synonym ustring = "nat list"

definition ustr :: "string \<Rightarrow> ustring" where
  "ustr s = map of_char s"

definition endash :: nat where
  "endash = 8211"

text \<open>
  What the interpreter and the libraries supply and the repository does not:
  \<^item> \<open>decimal\<close>: the Unicode decimal-digit table behind \<open>\d\<close>, \<open>int()\<close> and
    \<open>float()\<close> (\<open>decimal c\<close> is the digit value of code point \<open>c\<close>, if it is a
    decimal digit);
  \<^item> \<open>lower\<close>: \<open>str.lower\<close>;
  \<^item> \<open>set_iter\<close>: the order in which a \<open>set\<close> built by adding the given elements
    one after the other is iterated;
  \<^item> \<open>extract_one\<close>: rapidfuzz's \<open>process.extractOne\<close> with the scorer
    \<open>fuzz.token_sort_ratio\<close>: the best choice and its score, or \<open>None\<close>.
  They are parameters of the model. \<open>wf_env\<close> states the facts about them that
  the proofs rely on: the ASCII digits are digits with their values, no other ASCII
  character, no white space and no en dash is a digit, \<open>lower\<close> maps ASCII letters to
  lower case and leaves other ASCII characters alone, a set holds each added element
  once, and \<open>extractOne\<close> returns one of the choices it was given.
\<close>

record env =
  decimal :: "nat \<Rightarrow> nat option"
  lower :: "ustring \<Rightarrow> ustring"
  set_iter :: "ustring list \<Rightarrow> ustring list"
  extract_one :: "ustring \<Rightarrow> ustring list \<Rightarrow> (ustring \<times> rat) option"

text \<open>White space as \<open>\s\<close> and \<open>str.isspace\<close> see it.\<close>

definition is_space :: "nat \<Rightarrow> bool" where
  "is_space c \<longleftrightarrow>
     (9 \<le> c \<and> c \<le> 13) \<or> (28 \<le> c \<and> c \<le> 32) \<or> c = 133 \<or> c = 160 \<or> c = 5760 \<or>
     (8192 \<le> c \<and> c \<le> 8202) \<or> c = 8232 \<or> c = 8233 \<or> c = 8239 \<or> c = 8287 \<or> c = 12288"

definition ascii_lower_char :: "nat \<Rightarrow> nat" where
  "ascii_lower_char c = (if 65 \<le> c \<and> c \<le> 90 then c + 32 else c)"

definition wf_env :: "env \<Rightarrow> bool" where
  "wf_env E \<longleftrightarrow>
     (\<forall>c. c < 128 \<longrightarrow> decimal E c = (if 48 \<le> c \<and> c \<le> 57 then Some (c - 48) else None)) \<and>
     (\<forall>c d. decimal E c = Some d \<longrightarrow> d < 10 \<and> \<not> is_space c \<and> c \<noteq> endash) \<and>
     (\<forall>s. (\<forall>c \<in> set s. c < 128) \<longrightarrow> lower E s = map ascii_lower_char s) \<and>
     (\<forall>xs. set (set_iter E xs) = set xs \<and> distinct (set_iter E xs)) \<and>
     (\<forall>q cs c sc. extract_one E q cs = Some (c, sc) \<longrightarrow> c \<in> set cs)"

text \<open>
  A small environment to run examples in: the tables restricted to ASCII, a set
  iterated in insertion order, and a matcher that scores an exact match 100 and
  everything else 0, the first best choice winning.
\<close>

fun exact_extract :: "ustring \<Rightarrow> ustring list \<Rightarrow> (ustring \<times> rat) option" where
  "exact_extract q [] = None"
| "exact_extract q (c # cs) =
     (if q = c then Some (c, 100)
      else (case exact_extract q cs of
              Some (d, sc) \<Rightarrow> if sc = 100 then Some (d, sc) else Some (c, 0)
            | None \<Rightarrow> Some (c, 0)))"

definition ascii_env :: env where
  "ascii_env =
     \<lparr> decimal = (\<lambda>c. if 48 \<le> c \<and> c \<le> 57 then Some (c - 48) else None),
       lower = map ascii_lower_char,
       set_iter = remdups,
       extract_one = exact_extract \<rparr>"

section \<open>The fragment of \<open>re\<close> that the patterns use\<close>

text \<open>
  The three patterns of \<open>gen.py\<close> are built from literals, the classes \<open>\d\<close> and
  \<open>\s\<close> under \<open>+\<close> and \<open>*\<close>, sequence, alternation, \<open>?\<close> and numbered groups. The
  matcher is the backtracking one of \<open>re\<close>: alternatives left to right, \<open>?\<close>, \<open>*\<close> and
  \<open>+\<close> greedy, the continuation \<open>k\<close> deciding whether the rest of the pattern
  succeeds, and a group recording the text its body consumed.
\<close>

datatype cls = Digit | Space

datatype rx =
    Lit ustring
  | Seq rx rx
  | Alt rx rx
  | Opt rx
  | Star cls
  | Plus cls
  | Grp nat rx

type_synonym groups = "nat \<Rightarrow> ustring option"

fun in_cls :: "env \<Rightarrow> cls \<Rightarrow> nat \<Rightarrow> bool" where
  "in_cls E Digit c = (decimal E c \<noteq> None)"
| "in_cls E Space c = is_space c"

fun starts_with :: "ustring \<Rightarrow> ustring \<Rightarrow> bool" where
  "starts_with s [] = True"
| "starts_with [] (c # w) = False"
| "starts_with (x # s) (c # w) = (x = c \<and> starts_with s w)"

fun rx_match :: "env \<Rightarrow> rx \<Rightarrow> ustring \<Rightarrow> groups \<Rightarrow> (ustring \<Rightarrow> groups \<Rightarrow> 'a option) \<Rightarrow> 'a option" where
  "rx_match E (Lit w) s g k = (if starts_with s w then k (drop (length w) s) g else None)"
| "rx_match E (Seq a b) s g k = rx_match E a s g (\<lambda>s' g'. rx_match E b s' g' k)"
| "rx_match E (Alt a b) s g k =
     (case rx_match E a s g k of Some r \<Rightarrow> Some r | None \<Rightarrow> rx_match E b s g k)"
| "rx_match E (Opt a) s g k =
     (case rx_match E a s g k of Some r \<Rightarrow> Some r | None \<Rightarrow> k s g)"
| "rx_match E (Star c) [] g k = k [] g"
| "rx_match E (Star c) (x # xs) g k =
     (if in_cls E c x
      then (case rx_match E (Star c) xs g k of Some r \<Rightarrow> Some r | None \<Rightarrow> k (x # xs) g)
      else k (x # xs) g)"
| "rx_match E (Plus c) [] g k = None"
| "rx_match E (Plus c) (x # xs) g k =
     (if in_cls E c x then rx_match E (Star c) xs g k else None)"
| "rx_match E (Grp n a) s g k =
     rx_match E a s g (\<lambda>s' g'. k s' (g'(n \<mapsto> take (length s - length s') s)))"

text \<open>
  A match object: the span and the groups. \<open>re.search\<close> tries every start position
  from the left, the end of the string included, and returns the first match.
\<close>

record match_obj =
  m_start :: nat
  m_end :: nat
  m_groups :: groups

definition match_at :: "env \<Rightarrow> rx \<Rightarrow> ustring \<Rightarrow> (nat \<times> groups) option" where
  "match_at E r s = rx_match E r s (\<lambda>_. None) (\<lambda>s' g. Some (length s - length s', g))"

fun search_from :: "env \<Rightarrow> rx \<Rightarrow> nat \<Rightarrow> ustring \<Rightarrow> match_obj option" where
  "search_from E r i [] =
     (case match_at E r [] of
        Some (n, g) \<Rightarrow> Some \<lparr> m_start = i, m_end = i + n, m_groups = g \<rparr>
      | None \<Rightarrow> None)"
| "search_from E r i (x # xs) =
     (case match_at E r (x # xs) of
        Some (n, g) \<Rightarrow> Some \<lparr> m_start = i, m_end = i + n, m_groups = g \<rparr>
      | None \<Rightarrow> search_from E r (Suc i) xs)"

definition re_search :: "env \<Rightarrow> rx \<Rightarrow> ustring \<Rightarrow> match_obj option" where
  "re_search E r s = search_from E r 0 s"

text \<open>\<open>match.group(n)\<close>: the text of group \<open>n\<close>, or \<open>None\<close> when it took no part.\<close>

definition group :: "match_obj \<Rightarrow> nat \<Rightarrow> ustring option" where
  "group m n = m_groups m n"

subsection \<open>The patterns\<close>

definition unit_rx :: rx where
  "unit_rx = Alt (Lit (ustr ''mg'')) (Alt (Lit (ustr ''mcg'')) (Lit (ustr ''g'')))"

text \<open>\<^verbatim>\<open>(\d+(\.\d+)?)(\u2013(\d+(\.\d+)?))?\s*(mg|mcg|g)/kg\<close>\<close>

definition per_kg_rx :: rx where
  "per_kg_rx =
     Seq (Grp 1 (Seq (Plus Digit) (Opt (Grp 2 (Seq (Lit (ustr ''.'')) (Plus Digit))))))
    (Seq (Opt (Grp 3 (Seq (Lit [endash])
            (Grp 4 (Seq (Plus Digit) (Opt (Grp 5 (Seq (Lit (ustr ''.'')) (Plus Digit)))))))))
    (Seq (Star Space)
    (Seq (Grp 6 unit_rx) (Lit (ustr ''/kg'')))))"

text \<open>\<^verbatim>\<open>(\d+)(\u2013(\d+))?\s*(mg|mcg|g)\<close>\<close>

definition absolute_rx :: rx where
  "absolute_rx =
     Seq (Grp 1 (Plus Digit))
    (Seq (Opt (Grp 2 (Seq (Lit [endash]) (Grp 3 (Plus Digit)))))
    (Seq (Star Space) (Grp 4 unit_rx)))"

text \<open>\<^verbatim>\<open>(\d+(\.\d+)?)\s*(mg|mcg|g)\<close>\<close>

definition max_rx :: rx where
  "max_rx =
     Seq (Grp 1 (Seq (Plus Digit) (Opt (Grp 2 (Seq (Lit (ustr ''.'')) (Plus Digit))))))
    (Seq (Star Space) (Grp 3 unit_rx))"

section \<open>Numbers\<close>

text \<open>
  The exceptions the modelled fragment can raise. \<open>float(None)\<close> and \<open>None + str\<close>
  raise \<open>TypeError\<close>; \<open>float\<close> and \<open>int\<close> of a text that is no number raise
  \<open>ValueError\<close>; float division by zero raises \<open>ZeroDivisionError\<close>.
\<close>

datatype exn = TypeError | ValueError | ZeroDivisionError

definition ebind :: "exn + 'a \<Rightarrow> ('a \<Rightarrow> exn + 'b) \<Rightarrow> exn + 'b" where
  "ebind x f = (case x of Inl e \<Rightarrow> Inl e | Inr v \<Rightarrow> f v)"

subsection \<open>Binary64 floats\<close>

text \<open>
  A Python \<open>float\<close> is an IEEE 754 binary64 value: \<open>Fin r\<close> is the finite value with
  exact rational value \<open>r\<close> (\<open>Fin 0\<close> is \<open>+0.0\<close>), \<open>NegZero\<close> is \<open>-0.0\<close>. An \<open>int\<close>
  that takes part in float arithmetic or in a comparison with a float is \<open>Fin\<close> of
  its value: the integers of \<open>gen.py\<close> are all exactly representable.
  Arithmetic computes the exact rational result and rounds it to the nearest binary64
  value, ties to even (\<open>binary64\<close>): 53 significant bits, exponents down to the
  subnormal range, overflow to infinity.
\<close>

datatype pyfloat = Fin rat | NegZero | PInf | NInf | NaN

text \<open>The number of binary digits of a positive integer.\<close>

function blen :: "int \<Rightarrow> int" where
  "blen n = (if n \<le> 0 then 0 else 1 + blen (n div 2))"
  by pat_completeness auto
termination
  apply (relation "measure nat")
   apply simp
  apply simp
  done

declare blen.simps [simp del]

definition pow2 :: "int \<Rightarrow> rat" where
  "pow2 k = (if 0 \<le> k then 2 ^ nat k else 1 / 2 ^ nat (- k))"

text \<open>\<open>ilog2 q\<close> is the integer \<open>k\<close> with \<open>2^k \<le> q < 2^(k+1)\<close>, for \<open>q > 0\<close>.\<close>

definition ilog2 :: "rat \<Rightarrow> int" where
  "ilog2 q =
     (let (p, d) = quotient_of q;
          k = blen p - blen d
      in if pow2 k \<le> q then k else k - 1)"

definition round_half_even :: "rat \<Rightarrow> int" where
  "round_half_even x =
     (let f = \<lfloor>x\<rfloor>; d = x - of_int f
      in if d < 1 / 2 then f else if 1 / 2 < d then f + 1 else if even f then f else f + 1)"

text \<open>The binary64 value nearest to the magnitude \<open>q \<ge> 0\<close>, with sign \<open>neg\<close>.\<close>

definition binary64 :: "bool \<Rightarrow> rat \<Rightarrow> pyfloat" where
  "binary64 neg q =
     (if q = 0 then (if neg then NegZero else Fin 0)
      else
        let e = max (ilog2 q) (- 1022);
            ulp = pow2 (e - 52);
            r = of_int (round_half_even (q / ulp)) * ulp
        in if pow2 1024 \<le> r then (if neg then NInf else PInf)
           else if r = 0 then (if neg then NegZero else Fin 0)
           else Fin (if neg then - r else r))"

text \<open>A float literal of the source, such as \<open>0.6\<close>: the nearest binary64 value.\<close>

definition float_lit :: "rat \<Rightarrow> pyfloat" where
  "float_lit q = binary64 (q < 0) \<bar>q\<bar>"

fun fsign :: "pyfloat \<Rightarrow> bool" where
  "fsign (Fin r) = (r < 0)"
| "fsign NegZero = True"
| "fsign PInf = False"
| "fsign NInf = True"
| "fsign NaN = False"

fun fmag :: "pyfloat \<Rightarrow> rat" where
  "fmag (Fin r) = \<bar>r\<bar>"
| "fmag x = 0"

fun is_inf :: "pyfloat \<Rightarrow> bool" where
  "is_inf PInf = True"
| "is_inf NInf = True"
| "is_inf x = False"

fun is_zero :: "pyfloat \<Rightarrow> bool" where
  "is_zero (Fin r) = (r = 0)"
| "is_zero NegZero = True"
| "is_zero x = False"

definition fmul :: "pyfloat \<Rightarrow> pyfloat \<Rightarrow> pyfloat" where
  "fmul x y =
     (if x = NaN \<or> y = NaN then NaN
      else if is_inf x \<or> is_inf y
      then (if is_zero x \<or> is_zero y then NaN
            else if fsign x \<noteq> fsign y then NInf else PInf)
      else binary64 (fsign x \<noteq> fsign y) (fmag x * fmag y))"

definition fdiv :: "pyfloat \<Rightarrow> pyfloat \<Rightarrow> exn + pyfloat" where
  "fdiv x y =
     (if is_zero y then Inl ZeroDivisionError
      else if x = NaN \<or> y = NaN then Inr NaN
      else if is_inf x
      then (if is_inf y then Inr NaN
            else if fsign x \<noteq> fsign y then Inr NInf else Inr PInf)
      else if is_inf y then Inr (binary64 (fsign x \<noteq> fsign y) 0)
      else Inr (binary64 (fsign x \<noteq> fsign y) (fmag x / fmag y)))"

text \<open>
  Comparisons: \<open>NaN\<close> compares false with everything, the two zeros are equal, the
  infinities lie outside the finite values.
\<close>

fun fkey :: "pyfloat \<Rightarrow> (int \<times> rat) option" where
  "fkey (Fin r) = Some (0, r)"
| "fkey NegZero = Some (0, 0)"
| "fkey PInf = Some (1, 0)"
| "fkey NInf = Some (- 1, 0)"
| "fkey NaN = None"

definition flt :: "pyfloat \<Rightarrow> pyfloat \<Rightarrow> bool" where
  "flt x y =
     (case (fkey x, fkey y) of
        (Some (a, r), Some (b, q)) \<Rightarrow> a < b \<or> (a = b \<and> r < q)
      | _ \<Rightarrow> False)"

definition feq :: "pyfloat \<Rightarrow> pyfloat \<Rightarrow> bool" where
  "feq x y = (case (fkey x, fkey y) of (Some a, Some b) \<Rightarrow> a = b | _ \<Rightarrow> False)"

definition fle :: "pyfloat \<Rightarrow> pyfloat \<Rightarrow> bool" where
  "fle x y = (flt x y \<or> feq x y)"

definition fge :: "pyfloat \<Rightarrow> pyfloat \<Rightarrow> bool" where
  "fge x y = fle y x"

subsection \<open>Numbers and text\<close>

text \<open>The decimal digits of a non-negative integer.\<close>

function dec_str :: "int \<Rightarrow> ustring" where
  "dec_str n = (if n < 10 then [48 + nat n] else dec_str (n div 10) @ [48 + nat (n mod 10)])"
  by pat_completeness auto
termination
  apply (relation "measure nat")
   apply simp
  apply simp
  done

declare dec_str.simps [simp del]

text \<open>\<open>str\<close> of an \<open>int\<close>, as \<open>f"{chosen}"\<close> prints it.\<close>

definition int_str :: "int \<Rightarrow> ustring" where
  "int_str i = (if i < 0 then ustr ''-'' @ dec_str (- i) else dec_str i)"

text \<open>
  \<open>format_f p x\<close> is \<open>f"{x:.pf}"\<close>: the exact value of \<open>x\<close> rounded to \<open>p\<close>
  decimals, ties to even, the sign kept also when the digits are all zero.
\<close>

definition format_f :: "nat \<Rightarrow> pyfloat \<Rightarrow> ustring" where
  "format_f p x =
     (case x of
        NaN \<Rightarrow> ustr ''nan''
      | PInf \<Rightarrow> ustr ''inf''
      | NInf \<Rightarrow> ustr ''-inf''
      | _ \<Rightarrow>
          let n = round_half_even (fmag x * 10 ^ p);
              ip = dec_str (n div 10 ^ p);
              fd = dec_str (n mod 10 ^ p);
              fp = (if p = 0 then [] else ustr ''.'' @ replicate (p - length fd) 48 @ fd)
          in (if fsign x then ustr ''-'' else []) @ ip @ fp)"

text \<open>
  The value of a run of decimal digits, \<open>None\<close> if the text is empty or holds another
  character.
\<close>

fun digits_val :: "env \<Rightarrow> int \<Rightarrow> ustring \<Rightarrow> int option" where
  "digits_val E acc [] = Some acc"
| "digits_val E acc (c # cs) =
     (case decimal E c of None \<Rightarrow> None | Some d \<Rightarrow> digits_val E (10 * acc + int d) cs)"

definition digit_run :: "env \<Rightarrow> ustring \<Rightarrow> int option" where
  "digit_run E s = (if s = [] then None else digits_val E 0 s)"

text \<open>
  \<open>int(text)\<close> and \<open>float(text)\<close> on the texts the patterns can capture: digits, and
  digits with a point and more digits. The built-ins accept more (signs, exponents,
  surrounding white space, underscores); \<open>gen.py\<close> passes them group texts only, and
  every other text is \<open>ValueError\<close> here. The argument is what \<open>match.group\<close> returned,
  so \<open>None\<close> is \<open>TypeError\<close>. \<open>float\<close> rounds the decimal value correctly; \<open>int\<close> is
  exact and unbounded.
\<close>

definition py_int :: "env \<Rightarrow> ustring option \<Rightarrow> exn + int" where
  "py_int E t =
     (case t of
        None \<Rightarrow> Inl TypeError
      | Some s \<Rightarrow> (case digit_run E s of None \<Rightarrow> Inl ValueError | Some n \<Rightarrow> Inr n))"

definition py_float :: "env \<Rightarrow> ustring option \<Rightarrow> exn + pyfloat" where
  "py_float E t =
     (case t of
        None \<Rightarrow> Inl TypeError
      | Some s \<Rightarrow>
          let ip = takeWhile (\<lambda>c. c \<noteq> 46) s; rest = dropWhile (\<lambda>c. c \<noteq> 46) s
          in (case rest of
                [] \<Rightarrow> (case digit_run E ip of
                         None \<Rightarrow> Inl ValueError
                       | Some n \<Rightarrow> Inr (binary64 False (of_int n)))
              | _ # fp \<Rightarrow>
                  (case (digit_run E ip, digit_run E fp) of
                     (Some n, Some f) \<Rightarrow>
                       Inr (binary64 False (of_int n + of_int f / 10 ^ length fp))
                   | _ \<Rightarrow> Inl ValueError)))"

subsection \<open>\<open>str.find\<close> and slicing\<close>

text \<open>\<open>s.find(sub)\<close>: the lowest index at which \<open>sub\<close> occurs in \<open>s\<close>, or \<open>-1\<close>.\<close>

fun find_from :: "nat \<Rightarrow> ustring \<Rightarrow> ustring \<Rightarrow> int" where
  "find_from i [] sub = (if sub = [] then int i else - 1)"
| "find_from i (x # xs) sub =
     (if starts_with (x # xs) sub then int i else find_from (Suc i) xs sub)"

definition str_find :: "ustring \<Rightarrow> ustring \<Rightarrow> int" where
  "str_find s sub = find_from 0 s sub"

text \<open>\<open>s[i:]\<close>: a negative index counts from the end and is clipped at the start.\<close>

definition slice_from :: "ustring \<Rightarrow> int \<Rightarrow> ustring" where
  "slice_from s i = (if i < 0 then drop (nat (int (length s) + i)) s else drop (nat i) s)"

text \<open>The truth value of \<open>match.group(n)\<close>: \<open>None\<close> and the empty text are false.\<close>

definition truthy :: "ustring option \<Rightarrow> bool" where
  "truthy t = (case t of None \<Rightarrow> False | Some s \<Rightarrow> s \<noteq> [])"

section \<open>The dose functions\<close>

subsection \<open>\<open>adjust_max_for_age_weight\<close>\<close>

text \<open>The text an f-string prints for the unit: \<open>None\<close> prints as \<open>None\<close>.\<close>

definition str_of :: "ustring option \<Rightarrow> ustring" where
  "str_of t = (case t of None \<Rightarrow> ustr ''None'' | Some s \<Rightarrow> s)"

definition adjust_max_for_age_weight :: "env \<Rightarrow> ustring \<Rightarrow> pyfloat \<Rightarrow> pyfloat \<Rightarrow> exn + ustring" where
  "adjust_max_for_age_weight E max_str age weight =
     (case re_search E max_rx max_str of
        None \<Rightarrow> Inr max_str
      | Some m \<Rightarrow>
          ebind (py_float E (group m 1)) (\<lambda>value0.
            let original_unit = group m 3;
                value1 = (if original_unit = Some (ustr ''g'') then fmul value0 (Fin 1000)
                          else value0);
                unit = (if original_unit = Some (ustr ''g'') then Some (ustr ''mg'')
                        else original_unit);
                value2 = (if fge age (Fin 80) then fmul value1 (float_lit (6 / 10))
                          else if fge age (Fin 65) then fmul value1 (float_lit (75 / 100))
                          else value1);
                value3 = (if flt weight (Fin 50) then fmul value2 (float_lit (75 / 100))
                          else value2)
            in if original_unit = Some (ustr ''g'')
                  \<or> (unit = Some (ustr ''mg'') \<and> fge value3 (Fin 1000))
               then ebind (fdiv value3 (Fin 1000)) (\<lambda>grams.
                      Inr (format_f 1 grams @ ustr '' g/day (adjusted)''))
               else Inr (format_f 0 value3 @ ustr '' '' @ str_of unit
                         @ ustr ''/day (adjusted)'')))"

subsection \<open>\<open>calculate_dose\<close>\<close>

definition calculate_dose :: "env \<Rightarrow> ustring \<Rightarrow> pyfloat \<Rightarrow> pyfloat \<Rightarrow> exn + ustring" where
  "calculate_dose E dose_str weight age =
     (case re_search E per_kg_rx dose_str of
        Some m \<Rightarrow>
          ebind (py_float E (group m 1)) (\<lambda>low.
          ebind (if truthy (group m 4) then py_float E (group m 4) else Inr low) (\<lambda>high.
            case group m 6 of
              None \<Rightarrow> Inl TypeError
            | Some unit \<Rightarrow>
                let dose_low = fmul low weight;
                    dose_high = fmul high weight;
                    calc_dose =
                      (if feq dose_low dose_high
                       then format_f 1 dose_low @ ustr '' '' @ unit
                       else format_f 1 dose_low @ [endash] @ format_f 1 dose_high
                            @ ustr '' '' @ unit);
                    suffix = slice_from dose_str
                               (str_find dose_str (unit @ ustr ''/kg'') + int (length unit) + 3)
                in Inr (calc_dose @ suffix)))
      | None \<Rightarrow>
          (case re_search E absolute_rx dose_str of
             Some range_match \<Rightarrow>
               ebind (py_int E (group range_match 1)) (\<lambda>low.
               ebind (if truthy (group range_match 3) then py_int E (group range_match 3)
                      else Inr low) (\<lambda>high.
                 case group range_match 4 of
                   None \<Rightarrow> Inl TypeError
                 | Some unit \<Rightarrow>
                     let chosen = (if fge age (Fin 65) then low else (low + high) div 2);
                         suffix = slice_from dose_str
                                    (str_find dose_str unit + int (length unit))
                     in Inr (int_str chosen @ ustr '' '' @ unit @ suffix)))
           | None \<Rightarrow> Inr dose_str))"

subsection \<open>\<open>estimate_weight_by_age\<close>\<close>

definition estimate_weight_by_age :: "pyfloat \<Rightarrow> pyfloat" where
  "estimate_weight_by_age age_years =
     (if flt age_years (float_lit (1 / 10)) then Fin 4
      else if flt age_years (Fin 1) then Fin 8
      else if flt age_years (Fin 5) then Fin 15
      else if flt age_years (Fin 12) then Fin 35
      else Fin 70)"

subsection \<open>The rule table and \<open>recommend_dose\<close>\<close>

record dose_rule =
  age_min :: pyfloat
  age_max :: pyfloat
  dose :: ustring
  max_dose :: ustring

definition medications :: "(ustring \<times> dose_rule list) list" where
  "medications =
     [
      (ustr ''paracetamol'',
       [
        \<lparr> age_min = Fin 0, age_max = Fin 1,
           dose = ustr ''10 mg/kg every 6h'',
           max_dose = ustr ''40 mg/kg/day'' \<rparr>,
        \<lparr> age_min = Fin 1, age_max = Fin 12,
           dose = ustr ''15 mg/kg every 6h'',
           max_dose = ustr ''60 mg/kg/day'' \<rparr>,
        \<lparr> age_min = Fin 12, age_max = Fin 200,
           dose = ustr ''500'' @ [endash] @ ustr ''1000 mg every 6h'',
           max_dose = ustr ''4 g/day'' \<rparr>
       ]),
      (ustr ''ibuprofen'',
       [
        \<lparr> age_min = Fin (1 / 2), age_max = Fin 1,
           dose = ustr ''5 mg/kg every 8h'',
           max_dose = ustr ''40 mg/kg/day'' \<rparr>,
        \<lparr> age_min = Fin 1, age_max = Fin 12,
           dose = ustr ''10 mg/kg every 6'' @ [endash] @ ustr ''8h'',
           max_dose = ustr ''40 mg/kg/day'' \<rparr>,
        \<lparr> age_min = Fin 12, age_max = Fin 200,
           dose = ustr ''200'' @ [endash] @ ustr ''400 mg every 6h'',
           max_dose = ustr ''1200 mg/day (OTC)'' \<rparr>
       ]),
      (ustr ''amoxicillin'',
       [
        \<lparr> age_min = Fin 0, age_max = Fin 1,
           dose = ustr ''20 mg/kg/day divided 3 doses'',
           max_dose = ustr ''30 mg/kg/day'' \<rparr>,
        \<lparr> age_min = Fin 1, age_max = Fin 12,
           dose = ustr ''25'' @ [endash] @ ustr ''50 mg/kg/day in 2'' @ [endash] @ ustr ''3 doses'',
           max_dose = ustr ''90 mg/kg/day'' \<rparr>,
        \<lparr> age_min = Fin 12, age_max = Fin 200,
           dose = ustr ''500 mg every 8h'',
           max_dose = ustr ''3 g/day'' \<rparr>
       ]),
      (ustr ''azithromycin'',
       [
        \<lparr> age_min = Fin 1, age_max = Fin 12,
           dose = ustr ''10 mg/kg once daily'',
           max_dose = ustr ''500 mg'' \<rparr>,
        \<lparr> age_min = Fin 12, age_max = Fin 200,
           dose = ustr ''500 mg day 1, then 250 mg daily'',
           max_dose = ustr ''1.5 g/course'' \<rparr>
       ]),
      (ustr ''aspirin'',
       [
        \<lparr> age_min = Fin 12, age_max = Fin 200,
           dose = ustr ''75'' @ [endash] @ ustr ''325 mg once daily'',
           max_dose = ustr ''4 g/day'' \<rparr>
       ]),
      (ustr ''metformin'',
       [
        \<lparr> age_min = Fin 10, age_max = Fin 18,
           dose = ustr ''500 mg twice daily'',
           max_dose = ustr ''2 g/day'' \<rparr>,
        \<lparr> age_min = Fin 18, age_max = Fin 200,
           dose = ustr ''500'' @ [endash] @ ustr ''1000 mg twice daily'',
           max_dose = ustr ''2.5 g/day'' \<rparr>
       ]),
      (ustr ''omeprazole'',
       [
        \<lparr> age_min = Fin 1, age_max = Fin 12,
           dose = ustr ''0.7'' @ [endash] @ ustr ''3.5 mg/kg/day'',
           max_dose = ustr ''20 mg/day'' \<rparr>,
        \<lparr> age_min = Fin 12, age_max = Fin 200,
           dose = ustr ''20'' @ [endash] @ ustr ''40 mg daily'',
           max_dose = ustr ''40 mg/day'' \<rparr>
       ]),
      (ustr ''prednisone'',
       [
        \<lparr> age_min = Fin 1, age_max = Fin 12,
           dose = ustr ''0.5'' @ [endash] @ ustr ''2 mg/kg/day'',
           max_dose = ustr ''60 mg/day'' \<rparr>,
        \<lparr> age_min = Fin 12, age_max = Fin 200,
           dose = ustr ''5'' @ [endash] @ ustr ''60 mg daily'',
           max_dose = ustr ''80 mg/day'' \<rparr>
       ]),
      (ustr ''ciprofloxacin'',
       [
        \<lparr> age_min = Fin 1, age_max = Fin 12,
           dose = ustr ''10 mg/kg every 12h'',
           max_dose = ustr ''500 mg/dose'' \<rparr>,
        \<lparr> age_min = Fin 12, age_max = Fin 200,
           dose = ustr ''500'' @ [endash] @ ustr ''750 mg every 12h'',
           max_dose = ustr ''1500 mg/day'' \<rparr>
       ]),
      (ustr ''levothyroxine'',
       [
        \<lparr> age_min = Fin 0, age_max = Fin 1,
           dose = ustr ''10'' @ [endash] @ ustr ''15 mcg/kg/day'',
           max_dose = ustr ''50 mcg/day'' \<rparr>,
        \<lparr> age_min = Fin 1, age_max = Fin 12,
           dose = ustr ''4'' @ [endash] @ ustr ''6 mcg/kg/day'',
           max_dose = ustr ''100 mcg/day'' \<rparr>,
        \<lparr> age_min = Fin 12, age_max = Fin 200,
           dose = ustr ''50'' @ [endash] @ ustr ''200 mcg/day'',
           max_dose = ustr ''200 mcg/day'' \<rparr>
       ]),
      (ustr ''atorvastatin'',
       [
        \<lparr> age_min = Fin 10, age_max = Fin 18,
           dose = ustr ''10'' @ [endash] @ ustr ''20 mg daily'',
           max_dose = ustr ''20 mg/day'' \<rparr>,
        \<lparr> age_min = Fin 18, age_max = Fin 200,
           dose = ustr ''10'' @ [endash] @ ustr ''80 mg daily'',
           max_dose = ustr ''80 mg/day'' \<rparr>
       ]),
      (ustr ''lisinopril'',
       [
        \<lparr> age_min = Fin 6, age_max = Fin 16,
           dose = ustr ''0.07 mg/kg once daily'',
           max_dose = ustr ''5 mg/day'' \<rparr>,
        \<lparr> age_min = Fin 16, age_max = Fin 200,
           dose = ustr ''5'' @ [endash] @ ustr ''40 mg once daily'',
           max_dose = ustr ''40 mg/day'' \<rparr>
       ])
     ]"

text \<open>
  The result of \<open>recommend_dose\<close> is a dictionary: either the single key
  \<open>error\<close>, whose message names the drug, and in the second case the age, or the
  five fields of a recommendation.
\<close>

datatype error_result = UnknownDrug ustring | NoRuleForAge ustring pyfloat

record recommendation =
  drug :: ustring
  age_years :: pyfloat
  weight_kg :: pyfloat
  dosage :: ustring
  max_per_day :: ustring

datatype outcome = Error error_result | Recommendation recommendation

definition in_band :: "pyfloat \<Rightarrow> dose_rule \<Rightarrow> bool" where
  "in_band age r \<longleftrightarrow> fle (age_min r) age \<and> flt age (age_max r)"

definition recommend_dose :: "env \<Rightarrow> ustring \<Rightarrow> pyfloat \<Rightarrow> pyfloat option \<Rightarrow> exn + outcome" where
  "recommend_dose E drug_name age weight =
     (let key = lower E drug_name;
          rules = map_of medications key
      in if rules = None \<or> rules = Some [] then Inr (Error (UnknownDrug drug_name))
         else
           (case find (in_band age) (the rules) of
              None \<Rightarrow> Inr (Error (NoRuleForAge drug_name age))
            | Some rule \<Rightarrow>
                let w = (case weight of None \<Rightarrow> estimate_weight_by_age age | Some v \<Rightarrow> v)
                in ebind (calculate_dose E (dose rule) w age) (\<lambda>dosage_text.
                   ebind (adjust_max_for_age_weight E (max_dose rule) age w) (\<lambda>max_text.
                     Inr (Recommendation
                            \<lparr> drug = drug_name, age_years = age, weight_kg = w,
                              dosage = dosage_text, max_per_day = max_text \<rparr>)))))"

section \<open>\<open>find_ddi_local\<close>\<close>

text \<open>
  A row of the local table. \<open>rec_drug_a\<close> and \<open>rec_drug_b\<close> are the texts
  \<open>str(rec.get("drug_a", ""))\<close> and \<open>str(rec.get("drug_b", ""))\<close>; the other fields
  are \<open>None\<close> when the row has no such key.
\<close>

record ddi_record =
  rec_drug_a :: ustring
  rec_drug_b :: ustring
  rec_severity :: "ustring option"
  rec_description :: "ustring option"
  rec_source :: "ustring option"

record matched_pair =
  drug_a :: ustring
  drug_b :: ustring
  matched_a :: ustring
  matched_b :: ustring
  severity :: "ustring option"
  description :: "ustring option"
  source :: ustring

text \<open>\<open>itertools.combinations(xs, 2)\<close>: the pairs of positions \<open>i < j\<close>, in order.\<close>

fun combinations2 :: "'a list \<Rightarrow> ('a \<times> 'a) list" where
  "combinations2 [] = []"
| "combinations2 (x # xs) = map (Pair x) xs @ combinations2 xs"

text \<open>The vocabulary: the set of lower-cased names, iterated, without the empty name.\<close>

definition db_list :: "env \<Rightarrow> ddi_record list \<Rightarrow> ustring list" where
  "db_list E local_records =
     filter (\<lambda>d. d \<noteq> [])
       (set_iter E (concat (map (\<lambda>r. [lower E (rec_drug_a r), lower E (rec_drug_b r)])
                                 local_records)))"

text \<open>The value stored for one input name: the accepted match, or \<open>None\<close>.\<close>

definition fuzzy_match :: "env \<Rightarrow> ustring list \<Rightarrow> rat \<Rightarrow> ustring \<Rightarrow> ustring option" where
  "fuzzy_match E choices fuzz_threshold d =
     (case extract_one E (lower E d) choices of
        Some (c, sc) \<Rightarrow> if fuzz_threshold \<le> sc then Some c else None
      | None \<Rightarrow> None)"

definition build_mapping :: "env \<Rightarrow> ustring list \<Rightarrow> rat \<Rightarrow> ustring list
    \<Rightarrow> (ustring \<rightharpoonup> ustring option)" where
  "build_mapping E choices fuzz_threshold drug_names =
     fold (\<lambda>d mapping. mapping(d \<mapsto> fuzzy_match E choices fuzz_threshold d))
       drug_names Map.empty"

text \<open>\<open>mapping.get(a)\<close>: \<open>None\<close> for a missing key as for a stored \<open>None\<close>.\<close>

definition dict_get :: "('k \<rightharpoonup> 'v option) \<Rightarrow> 'k \<Rightarrow> 'v option" where
  "dict_get d k = (case d k of None \<Rightarrow> None | Some v \<Rightarrow> v)"

definition scan_records :: "env \<Rightarrow> ustring \<Rightarrow> ustring \<Rightarrow> ustring option \<Rightarrow> ustring option
    \<Rightarrow> ddi_record list \<Rightarrow> matched_pair list \<Rightarrow> matched_pair list" where
  "scan_records E a b ma mb local_records found0 =
     fold (\<lambda>rec found.
             let ra = lower E (rec_drug_a rec); rb = lower E (rec_drug_b rec)
             in if (Some ra = ma \<and> Some rb = mb) \<or> (Some ra = mb \<and> Some rb = ma)
                then found @
                       [\<lparr> drug_a = a, drug_b = b,
                          matched_a = str_of ma, matched_b = str_of mb,
                          severity = rec_severity rec,
                          description = rec_description rec,
                          source = (case rec_source rec of None \<Rightarrow> ustr ''local''
                                    | Some s \<Rightarrow> s) \<rparr>]
                else found)
       local_records found0"

definition find_ddi_local :: "env \<Rightarrow> ustring list \<Rightarrow> ddi_record list \<Rightarrow> rat \<Rightarrow> matched_pair list" where
  "find_ddi_local E drug_names local_records fuzz_threshold =
     (let mapping = build_mapping E (db_list E local_records) fuzz_threshold drug_names
      in fold (\<lambda>(a, b) found.
                 let ma = dict_get mapping a; mb = dict_get mapping b
                 in if \<not> truthy ma \<or> \<not> truthy mb then found
                    else scan_records E a b ma mb local_records found)
           (combinations2 drug_names) [])"

subsection \<open>The matcher's result, stated on the records\<close>

text \<open>
  A record matches a pair of canonical names when its two lower-cased drug columns are
  the two names, in either order; \<open>mk_pair\<close> is the dictionary appended for it.
  \<open>pair_hits\<close> is what one pair of input names contributes, with the truth test of
  the code on the two matches; \<open>pair_matches\<close> is the same without that test.
\<close>

definition rec_matches :: "env \<Rightarrow> ustring \<Rightarrow> ustring \<Rightarrow> ddi_record \<Rightarrow> bool" where
  "rec_matches E ma mb r \<longleftrightarrow>
     (lower E (rec_drug_a r) = ma \<and> lower E (rec_drug_b r) = mb) \<or>
     (lower E (rec_drug_a r) = mb \<and> lower E (rec_drug_b r) = ma)"

definition mk_pair :: "ustring \<Rightarrow> ustring \<Rightarrow> ustring \<Rightarrow> ustring \<Rightarrow> ddi_record \<Rightarrow> matched_pair" where
  "mk_pair a b ma mb r =
     \<lparr> drug_a = a, drug_b = b, matched_a = ma, matched_b = mb,
       severity = rec_severity r, description = rec_description r,
       source = (case rec_source r of None \<Rightarrow> ustr ''local'' | Some s \<Rightarrow> s) \<rparr>"

definition pair_hits :: "env \<Rightarrow> ddi_record list \<Rightarrow> (ustring \<Rightarrow> ustring option) \<Rightarrow> ustring \<times> ustring
    \<Rightarrow> matched_pair list" where
  "pair_hits E recs fm ab =
     (case (fm (fst ab), fm (snd ab)) of
        (Some ma, Some mb) \<Rightarrow>
          if ma \<noteq> [] \<and> mb \<noteq> []
          then map (mk_pair (fst ab) (snd ab) ma mb) (filter (rec_matches E ma mb) recs)
          else []
      | _ \<Rightarrow> [])"

definition pair_matches :: "env \<Rightarrow> ddi_record list \<Rightarrow> (ustring \<Rightarrow> ustring option) \<Rightarrow> ustring \<times> ustring
    \<Rightarrow> matched_pair list" where
  "pair_matches E recs fm ab =
     (case (fm (fst ab), fm (snd ab)) of
        (Some ma, Some mb) \<Rightarrow>
          map (mk_pair (fst ab) (snd ab) ma mb) (filter (rec_matches E ma mb) recs)
      | _ \<Rightarrow> [])"

text \<open>
  The result as the specification words it, on the input itself: the pairs of
  positions \<open>i < j\<close> of the input list, in the order of \<open>itertools.combinations\<close>,
  and, for each, the score that \<open>extractOne\<close> gives the two lower-cased names against
  the vocabulary, compared with the threshold; a pair whose two scores reach it
  contributes one entry for each record, in table order, whose columns are the two
  canonical names.
\<close>

definition position_pairs :: "nat \<Rightarrow> (nat \<times> nat) list" where
  "position_pairs n = concat (map (\<lambda>i. map (Pair i) [Suc i..<n]) [0..<n])"

definition expected_pairs :: "env \<Rightarrow> ustring list \<Rightarrow> ddi_record list \<Rightarrow> rat \<Rightarrow> matched_pair list" where
  "expected_pairs E names recs thr =
     concat (map (\<lambda>(i, j).
        case extract_one E (lower E (names ! i)) (db_list E recs) of
          None \<Rightarrow> []
        | Some (ma, sa) \<Rightarrow>
            (case extract_one E (lower E (names ! j)) (db_list E recs) of
               None \<Rightarrow> []
             | Some (mb, sb) \<Rightarrow>
                 if thr \<le> sa \<and> thr \<le> sb
                 then map (mk_pair (names ! i) (names ! j) ma mb)
                        (filter (rec_matches E ma mb) recs)
                 else []))
       (position_pairs (length names)))"

section \<open>The patterns, read declaratively\<close>

text \<open>
  What a pattern matches, without the order in which the matcher tries things:
  \<open>matches E r x g g'\<close> holds when the text \<open>x\<close> is in the language of \<open>r\<close> and the
  groups \<open>g\<close> become \<open>g'\<close> along one way of reading \<open>x\<close>.
\<close>

fun matches :: "env \<Rightarrow> rx \<Rightarrow> ustring \<Rightarrow> groups \<Rightarrow> groups \<Rightarrow> bool" where
  "matches E (Lit w) x g g' \<longleftrightarrow> x = w \<and> g' = g"
| "matches E (Seq a b) x g g' \<longleftrightarrow>
     (\<exists>u v gm. x = u @ v \<and> matches E a u g gm \<and> matches E b v gm g')"
| "matches E (Alt a b) x g g' \<longleftrightarrow> matches E a x g g' \<or> matches E b x g g'"
| "matches E (Opt a) x g g' \<longleftrightarrow> matches E a x g g' \<or> (x = [] \<and> g' = g)"
| "matches E (Star c) x g g' \<longleftrightarrow> list_all (in_cls E c) x \<and> g' = g"
| "matches E (Plus c) x g g' \<longleftrightarrow> x \<noteq> [] \<and> list_all (in_cls E c) x \<and> g' = g"
| "matches E (Grp n a) x g g' \<longleftrightarrow> (\<exists>gm. matches E a x g gm \<and> g' = gm(n \<mapsto> x))"

text \<open>
  The three patterns in words. A run of digits is not empty; a number is a run of
  digits, or two runs with a point between them; a unit is \<open>mg\<close>, \<open>mcg\<close> or \<open>g\<close>.
  \<open>per_kg_text\<close> is a number, an optional en dash and number, white space, a unit and
  \<open>/kg\<close>; \<open>absolute_text\<close> is a run of digits, an optional en dash and run of digits,
  white space and a unit; \<open>max_text\<close> is a number, white space and a unit. A text
  contains one of them when some part of it is one.
\<close>

definition accepts :: "env \<Rightarrow> rx \<Rightarrow> ustring \<Rightarrow> bool" where
  "accepts E r x \<longleftrightarrow> (\<exists>g'. matches E r x (\<lambda>_. None) g')"

definition digits :: "env \<Rightarrow> ustring \<Rightarrow> bool" where
  "digits E ds \<longleftrightarrow> ds \<noteq> [] \<and> list_all (\<lambda>c. decimal E c \<noteq> None) ds"

definition is_number :: "env \<Rightarrow> ustring \<Rightarrow> bool" where
  "is_number E x \<longleftrightarrow>
     digits E x \<or> (\<exists>ds fs. x = ds @ ustr ''.'' @ fs \<and> digits E ds \<and> digits E fs)"

definition is_unit :: "ustring \<Rightarrow> bool" where
  "is_unit u \<longleftrightarrow> u = ustr ''mg'' \<or> u = ustr ''mcg'' \<or> u = ustr ''g''"

definition per_kg_text :: "env \<Rightarrow> ustring \<Rightarrow> bool" where
  "per_kg_text E x \<longleftrightarrow>
     (\<exists>lo hi sp u. x = lo @ hi @ sp @ u @ ustr ''/kg'' \<and> is_number E lo \<and>
        (hi = [] \<or> (\<exists>h. hi = endash # h \<and> is_number E h)) \<and>
        list_all is_space sp \<and> is_unit u)"

definition absolute_text :: "env \<Rightarrow> ustring \<Rightarrow> bool" where
  "absolute_text E x \<longleftrightarrow>
     (\<exists>lo hi sp u. x = lo @ hi @ sp @ u \<and> digits E lo \<and>
        (hi = [] \<or> (\<exists>h. hi = endash # h \<and> digits E h)) \<and>
        list_all is_space sp \<and> is_unit u)"

definition max_text :: "env \<Rightarrow> ustring \<Rightarrow> bool" where
  "max_text E x \<longleftrightarrow>
     (\<exists>v sp u. x = v @ sp @ u \<and> is_number E v \<and> list_all is_space sp \<and> is_unit u)"

definition contains :: "(ustring \<Rightarrow> bool) \<Rightarrow> ustring \<Rightarrow> bool" where
  "contains P s \<longleftrightarrow> (\<exists>pre x post. s = pre @ x @ post \<and> P x)"

section \<open>Properties of \<open>find_ddi_local\<close>\<close>

lemma scan_records_eq:
  "scan_records E a b (Some ma) (Some mb) recs found0 =
     found0 @ map (mk_pair a b ma mb) (filter (rec_matches E ma mb) recs)"
  unfolding scan_records_def
  by (induction recs arbitrary: found0) (simp_all add: rec_matches_def mk_pair_def str_of_def Let_def)

lemma build_mapping_fold:
  "dict_get (fold (\<lambda>d mapping. mapping(d \<mapsto> f d)) names m0) d =
     (if d \<in> set names then f d else dict_get m0 d)"
  by (induction names arbitrary: m0) (simp_all add: dict_get_def)

lemma build_mapping_get:
  "dict_get (build_mapping E ch thr names) d =
     (if d \<in> set names then fuzzy_match E ch thr d else None)"
  unfolding build_mapping_def by (simp add: build_mapping_fold) (simp add: dict_get_def)

lemma wf_extract_one:
  "wf_env E \<Longrightarrow> extract_one E q cs = Some (c, sc) \<Longrightarrow> c \<in> set cs"
  unfolding wf_env_def by blast

lemma fuzzy_match_in_choices:
  "wf_env E \<Longrightarrow> fuzzy_match E ch thr d = Some c \<Longrightarrow> c \<in> set ch"
  unfolding fuzzy_match_def
  by (auto split: option.splits prod.splits if_splits dest: wf_extract_one)

lemma db_list_nonempty: "c \<in> set (db_list E recs) \<Longrightarrow> c \<noteq> []"
  unfolding db_list_def by simp

lemma combinations2_set: "(a, b) \<in> set (combinations2 xs) \<Longrightarrow> a \<in> set xs \<and> b \<in> set xs"
  by (induction xs) auto

lemma fold_pairs:
  "(\<forall>ab \<in> set ps. \<forall>acc. f ab acc = acc @ h ab) \<Longrightarrow> fold f ps acc0 = acc0 @ concat (map h ps)"
proof (induction ps arbitrary: acc0)
  case Nil
  show ?case by simp
next
  case (Cons p ps)
  have hd: "f p acc0 = acc0 @ h p" using Cons.prems by simp
  have tl: "\<forall>ab \<in> set ps. \<forall>acc. f ab acc = acc @ h ab" using Cons.prems by simp
  have "fold f (p # ps) acc0 = fold f ps (acc0 @ h p)" by (simp add: hd)
  also have "\<dots> = (acc0 @ h p) @ concat (map h ps)" by (rule Cons.IH[OF tl])
  finally show ?case by simp
qed

lemma find_ddi_local_concat:
  "find_ddi_local E names recs thr =
     concat (map (pair_hits E recs (fuzzy_match E (db_list E recs) thr)) (combinations2 names))"
proof -
  let ?fm = "fuzzy_match E (db_list E recs) thr"
  let ?mp = "build_mapping E (db_list E recs) thr names"
  define f where "f = (\<lambda>ab. case ab of (a, b) \<Rightarrow> \<lambda>found.
                 let ma = dict_get ?mp a; mb = dict_get ?mp b
                 in if \<not> truthy ma \<or> \<not> truthy mb then found
                    else scan_records E a b ma mb recs found)"
  have step: "f ab acc = acc @ pair_hits E recs ?fm ab"
    if "ab \<in> set (combinations2 names)" for ab acc
  proof -
    obtain a b where ab: "ab = (a, b)" by (cases ab)
    from that ab have "(a, b) \<in> set (combinations2 names)" by simp
    then have "a \<in> set names \<and> b \<in> set names"
      by (rule combinations2_set)
    then have mem: "a \<in> set names" "b \<in> set names" by simp_all
    have ga: "dict_get ?mp a = ?fm a" and gb: "dict_get ?mp b = ?fm b"
      using mem by (simp_all add: build_mapping_get)
    show ?thesis
    proof (cases "?fm a")
      case None
      then show ?thesis by (simp add: f_def ab ga gb truthy_def pair_hits_def)
    next
      case (Some ma)
      note A = this
      show ?thesis
      proof (cases "?fm b")
        case None
        then show ?thesis by (simp add: f_def ab ga gb A truthy_def pair_hits_def)
      next
        case (Some mb)
        then show ?thesis
          by (simp add: f_def ab ga gb A truthy_def pair_hits_def scan_records_eq)
      qed
    qed
  qed
  have all: "\<forall>ab \<in> set (combinations2 names). \<forall>acc. f ab acc = acc @ pair_hits E recs ?fm ab"
    using step by blast
  have "find_ddi_local E names recs thr = fold f (combinations2 names) []"
    unfolding find_ddi_local_def f_def Let_def by (rule refl)
  also have "\<dots> = [] @ concat (map (pair_hits E recs ?fm) (combinations2 names))"
    by (rule fold_pairs[OF all])
  finally show ?thesis by simp
qed

lemma pair_hits_names:
  "p \<in> set (pair_hits E recs fm ab) \<Longrightarrow>
     drug_a p = fst ab \<and> drug_b p = snd ab \<and> fm (fst ab) \<noteq> None \<and> fm (snd ab) \<noteq> None"
  unfolding pair_hits_def
  by (cases "fm (fst ab)"; cases "fm (snd ab)") (auto simp: mk_pair_def split: if_splits)

lemma exact_extract_in: "exact_extract q cs = Some (c, sc) \<Longrightarrow> c \<in> set cs"
  by (induction cs arbitrary: c sc) (auto split: if_splits option.splits prod.splits)

lemma wf_ascii_env: "wf_env ascii_env"
  unfolding wf_env_def ascii_env_def
  by (auto simp: is_space_def endash_def dest: exact_extract_in)

lemma pair_hits_matches:
  assumes "wf_env E"
  shows "pair_hits E recs (fuzzy_match E (db_list E recs) thr) ab =
         pair_matches E recs (fuzzy_match E (db_list E recs) thr) ab"
proof -
  let ?fm = "fuzzy_match E (db_list E recs) thr"
  have ne: "c \<noteq> []" if "?fm x = Some c" for x c
    using fuzzy_match_in_choices[OF assms that] by (rule db_list_nonempty)
  show ?thesis
    unfolding pair_hits_def pair_matches_def
    by (cases "?fm (fst ab)"; cases "?fm (snd ab)") (simp_all add: ne)
qed

lemma position_pairs_Suc:
  "position_pairs (Suc n) =
     map (Pair 0) (map Suc [0..<n]) @ map (\<lambda>(i, j). (Suc i, Suc j)) (position_pairs n)"
proof -
  have up: "[0..<Suc n] = 0 # map Suc [0..<n]"
    by (simp add: upt_conv_Cons map_Suc_upt del: upt_Suc)
  have inner: "map (Pair (Suc i)) [Suc (Suc i)..<Suc n] =
               map (\<lambda>(i, j). (Suc i, Suc j)) (map (Pair i) [Suc i..<n])" for i
    by (simp add: map_Suc_upt[symmetric] del: upt_Suc)
  have first: "[Suc 0..<Suc n] = map Suc [0..<n]"
    by (simp add: map_Suc_upt del: upt_Suc)
  show ?thesis
    unfolding position_pairs_def up
    by (simp add: map_concat comp_def inner first del: upt_Suc)
qed

lemma position_pairs_set: "set (position_pairs n) = {(i, j). i < j \<and> j < n}"
proof -
  have "(i, j) \<in> set (position_pairs n) \<longleftrightarrow> i < j \<and> j < n" for i j
    unfolding position_pairs_def by (auto simp: image_iff)
  then show ?thesis by auto
qed

lemma combinations2_positions:
  "combinations2 xs = map (\<lambda>(i, j). (xs ! i, xs ! j)) (position_pairs (length xs))"
proof (induction xs)
  case Nil
  show ?case by (simp add: position_pairs_def)
next
  case (Cons x xs)
  have a: "map (\<lambda>(i, j). ((x # xs) ! i, (x # xs) ! j)) (map (Pair 0) (map Suc [0..<length xs]))
           = map (Pair x) xs"
  proof -
    have "map (\<lambda>(i, j). ((x # xs) ! i, (x # xs) ! j)) (map (Pair 0) (map Suc [0..<length xs]))
          = map (Pair x) (map (nth xs) [0..<length xs])"
      by (simp add: comp_def)
    then show ?thesis by (simp only: map_nth)
  qed
  have b: "map (\<lambda>(i, j). ((x # xs) ! i, (x # xs) ! j))
             (map (\<lambda>(i, j). (Suc i, Suc j)) (position_pairs (length xs)))
           = map (\<lambda>(i, j). (xs ! i, xs ! j)) (position_pairs (length xs))"
    by (simp add: comp_def case_prod_beta)
  show ?case
    using Cons.IH by (simp only: list.size combinations2.simps position_pairs_Suc map_append a b
        add_Suc_right add_0_right One_nat_def)
qed

lemma fuzzy_match_extract:
  "fuzzy_match E ch thr d =
     (case extract_one E (lower E d) ch of
        None \<Rightarrow> None
      | Some (c, sc) \<Rightarrow> if thr \<le> sc then Some c else None)"
  unfolding fuzzy_match_def by (simp split: option.splits)

lemma db_list_set:
  assumes "wf_env E"
  shows "set (db_list E recs) =
           ((\<lambda>r. lower E (rec_drug_a r)) ` set recs \<union> (\<lambda>r. lower E (rec_drug_b r)) ` set recs) - {[]}"
    and "distinct (db_list E recs)"
proof -
  have si: "set (set_iter E xs) = set xs" "distinct (set_iter E xs)" for xs
    using assms unfolding wf_env_def by blast+
  show "set (db_list E recs) =
           ((\<lambda>r. lower E (rec_drug_a r)) ` set recs \<union> (\<lambda>r. lower E (rec_drug_b r)) ` set recs) - {[]}"
    unfolding db_list_def by (auto simp: si)
  show "distinct (db_list E recs)"
    unfolding db_list_def by (simp add: si)
qed

lemma pair_hits_extract:
  assumes "wf_env E"
  shows "pair_hits E recs (fuzzy_match E (db_list E recs) thr) (a, b) =
     (case extract_one E (lower E a) (db_list E recs) of
          None \<Rightarrow> []
        | Some (ma, sa) \<Rightarrow>
            (case extract_one E (lower E b) (db_list E recs) of
               None \<Rightarrow> []
             | Some (mb, sb) \<Rightarrow>
                 if thr \<le> sa \<and> thr \<le> sb
                 then map (mk_pair a b ma mb) (filter (rec_matches E ma mb) recs)
                 else []))"
proof -
  have "pair_hits E recs (fuzzy_match E (db_list E recs) thr) (a, b)
      = pair_matches E recs (fuzzy_match E (db_list E recs) thr) (a, b)"
    by (rule pair_hits_matches[OF assms])
  also have "\<dots> = (case extract_one E (lower E a) (db_list E recs) of
          None \<Rightarrow> []
        | Some (ma, sa) \<Rightarrow>
            (case extract_one E (lower E b) (db_list E recs) of
               None \<Rightarrow> []
             | Some (mb, sb) \<Rightarrow>
                 if thr \<le> sa \<and> thr \<le> sb
                 then map (mk_pair a b ma mb) (filter (rec_matches E ma mb) recs)
                 else []))"
    unfolding pair_matches_def fuzzy_match_extract
    by (simp split: option.splits prod.splits)
  finally show ?thesis .
qed

lemma find_ddi_local_expected:
  assumes "wf_env E"
  shows "find_ddi_local E names recs thr = expected_pairs E names recs thr"
proof -
  let ?fm = "fuzzy_match E (db_list E recs) thr"
  have "find_ddi_local E names recs thr =
          concat (map (pair_hits E recs ?fm)
                   (map (\<lambda>(i, j). (names ! i, names ! j)) (position_pairs (length names))))"
    unfolding find_ddi_local_concat combinations2_positions[of names] by (rule refl)
  also have "\<dots> = expected_pairs E names recs thr"
    unfolding expected_pairs_def map_map
    by (rule arg_cong[where f = concat], rule map_cong, rule refl)
       (simp add: case_prod_beta pair_hits_extract[OF assms])
  finally show ?thesis .
qed

text \<open>
  C6. The vocabulary is the set of non-empty lower-cased names of the two drug columns
  of the records. For every two positions \<open>i < j\<close> of the input list whose names
  \<open>extractOne\<close> matches against that vocabulary with a score at or above the
  threshold, and every record whose lower-cased columns are the two canonical names in
  either order, the result holds the matched pair of that record; the whole result is
  exactly these entries, pair by pair in the order of the positions and record by
  record in table order, a repeated record giving a repeated entry. With two input
  names, both matched, the result is one entry per matching record, so exactly one
  matching record gives exactly one matched pair.
\<close>

theorem find_ddi_local_pairs:
  assumes "wf_env E"
  shows "set (db_list E recs) =
           ((\<lambda>r. lower E (rec_drug_a r)) ` set recs \<union>
            (\<lambda>r. lower E (rec_drug_b r)) ` set recs) - {[]} \<and>
         find_ddi_local E names recs thr = expected_pairs E names recs thr \<and>
         (i < j \<and> j < length names \<and>
          extract_one E (lower E (names ! i)) (db_list E recs) = Some (ma, sa) \<and> thr \<le> sa \<and>
          extract_one E (lower E (names ! j)) (db_list E recs) = Some (mb, sb) \<and> thr \<le> sb \<and>
          r \<in> set recs \<and> rec_matches E ma mb r \<longrightarrow>
            mk_pair (names ! i) (names ! j) ma mb r \<in> set (find_ddi_local E names recs thr)) \<and>
         (extract_one E (lower E a) (db_list E recs) = Some (ma, sa) \<and> thr \<le> sa \<and>
          extract_one E (lower E b) (db_list E recs) = Some (mb, sb) \<and> thr \<le> sb \<longrightarrow>
            find_ddi_local E [a, b] recs thr =
              map (mk_pair a b ma mb) (filter (rec_matches E ma mb) recs) \<and>
            (length (filter (rec_matches E ma mb) recs) = 1 \<longrightarrow>
               length (find_ddi_local E [a, b] recs thr) = 1))"
proof -
  have voc: "set (db_list E recs) =
           ((\<lambda>r. lower E (rec_drug_a r)) ` set recs \<union>
            (\<lambda>r. lower E (rec_drug_b r)) ` set recs) - {[]}"
    by (rule db_list_set(1)[OF assms])
  have exact: "find_ddi_local E ns recs thr = expected_pairs E ns recs thr" for ns
    by (rule find_ddi_local_expected[OF assms])
  have mem: "mk_pair (names ! i) (names ! j) ma mb r \<in> set (find_ddi_local E names recs thr)"
    if "i < j" "j < length names"
       "extract_one E (lower E (names ! i)) (db_list E recs) = Some (ma, sa)" "thr \<le> sa"
       "extract_one E (lower E (names ! j)) (db_list E recs) = Some (mb, sb)" "thr \<le> sb"
       "r \<in> set recs" "rec_matches E ma mb r"
  proof -
    have ij: "(i, j) \<in> set (position_pairs (length names))"
      using that(1,2) by (simp add: position_pairs_set)
    let ?h = "\<lambda>(i, j).
        case extract_one E (lower E (names ! i)) (db_list E recs) of
          None \<Rightarrow> []
        | Some (ma, sa) \<Rightarrow>
            (case extract_one E (lower E (names ! j)) (db_list E recs) of
               None \<Rightarrow> []
             | Some (mb, sb) \<Rightarrow>
                 if thr \<le> sa \<and> thr \<le> sb
                 then map (mk_pair (names ! i) (names ! j) ma mb)
                        (filter (rec_matches E ma mb) recs)
                 else [])"
    have "mk_pair (names ! i) (names ! j) ma mb r \<in> set (?h (i, j))"
      using that(3-8) by simp
    then have "\<exists>ps \<in> set (map ?h (position_pairs (length names))).
                 mk_pair (names ! i) (names ! j) ma mb r \<in> set ps"
      using ij by (intro bexI[of _ "?h (i, j)"]) (assumption, simp only: set_map, rule imageI)
    then show ?thesis
      unfolding exact expected_pairs_def set_concat by blast
  qed
  have two: "find_ddi_local E [a, b] recs thr =
              map (mk_pair a b ma mb) (filter (rec_matches E ma mb) recs)"
    if "extract_one E (lower E a) (db_list E recs) = Some (ma, sa)" "thr \<le> sa"
       "extract_one E (lower E b) (db_list E recs) = Some (mb, sb)" "thr \<le> sb"
    unfolding exact expected_pairs_def using that by (simp add: position_pairs_def)
  show ?thesis using voc exact mem two by simp
qed

theorem find_ddi_local_pairs_witness:
  "wf_env ascii_env \<and>
   mk_pair (ustr ''warfarin'') (ustr ''aspirin'') (ustr ''warfarin'') (ustr ''aspirin'')
     \<lparr> rec_drug_a = ustr ''Aspirin'', rec_drug_b = ustr ''Warfarin'',
        rec_severity = Some (ustr ''High''), rec_description = None, rec_source = None \<rparr>
     \<in> set (find_ddi_local ascii_env [ustr ''zzz'', ustr ''warfarin'', ustr ''aspirin'']
       [\<lparr> rec_drug_a = ustr ''Ibuprofen'', rec_drug_b = ustr ''Naproxen'',
           rec_severity = None, rec_description = None, rec_source = None \<rparr>,
        \<lparr> rec_drug_a = ustr ''Aspirin'', rec_drug_b = ustr ''Warfarin'',
           rec_severity = Some (ustr ''High''), rec_description = None, rec_source = None \<rparr>] 100) \<and>
   length (find_ddi_local ascii_env [ustr ''warfarin'', ustr ''aspirin'']
       [\<lparr> rec_drug_a = ustr ''Ibuprofen'', rec_drug_b = ustr ''Naproxen'',
           rec_severity = None, rec_description = None, rec_source = None \<rparr>,
        \<lparr> rec_drug_a = ustr ''Aspirin'', rec_drug_b = ustr ''Warfarin'',
           rec_severity = Some (ustr ''High''), rec_description = None, rec_source = None \<rparr>] 100) = 1"
proof -
  let ?r1 = "\<lparr> rec_drug_a = ustr ''Ibuprofen'', rec_drug_b = ustr ''Naproxen'',
        rec_severity = None, rec_description = None, rec_source = None \<rparr>"
  let ?r2 = "\<lparr> rec_drug_a = ustr ''Aspirin'', rec_drug_b = ustr ''Warfarin'',
        rec_severity = Some (ustr ''High''), rec_description = None, rec_source = None \<rparr>"
  let ?names = "[ustr ''zzz'', ustr ''warfarin'', ustr ''aspirin'']"
  have db: "db_list ascii_env [?r1, ?r2] =
              [ustr ''ibuprofen'', ustr ''naproxen'', ustr ''aspirin'', ustr ''warfarin'']"
    by (simp add: db_list_def ascii_env_def ustr_def ascii_lower_char_def)
  have la: "lower ascii_env (ustr ''aspirin'') = ustr ''aspirin''"
    and lw: "lower ascii_env (ustr ''warfarin'') = ustr ''warfarin''"
    by (simp_all add: ascii_env_def ustr_def ascii_lower_char_def)
  have ex: "extract_one ascii_env = exact_extract" by (simp add: ascii_env_def)
  have fa: "extract_one ascii_env (lower ascii_env (ustr ''warfarin'')) (db_list ascii_env [?r1, ?r2])
              = Some (ustr ''warfarin'', 100)"
    unfolding db lw ex by (simp add: ustr_def)
  have fb: "extract_one ascii_env (lower ascii_env (ustr ''aspirin'')) (db_list ascii_env [?r1, ?r2])
              = Some (ustr ''aspirin'', 100)"
    unfolding db la ex by (simp add: ustr_def)
  have n1: "?names ! 1 = ustr ''warfarin''" and n2: "?names ! 2 = ustr ''aspirin''"
    by simp_all
  have m2: "rec_matches ascii_env (ustr ''warfarin'') (ustr ''aspirin'') ?r2"
    by (simp add: rec_matches_def ascii_env_def ustr_def ascii_lower_char_def)
  have one: "length (filter (rec_matches ascii_env (ustr ''warfarin'') (ustr ''aspirin'')) [?r1, ?r2]) = 1"
    by (simp add: rec_matches_def ascii_env_def ustr_def ascii_lower_char_def)
  have ij: "(1::nat) < 2" "(2::nat) < length ?names" by simp_all
  have le: "(100::rat) \<le> 100" by simp
  have r2: "?r2 \<in> set [?r1, ?r2]" by simp
  note T = find_ddi_local_pairs[OF wf_ascii_env, of "[?r1, ?r2]" ?names 100 1 2
         "ustr ''warfarin''" 100 "ustr ''aspirin''" 100 ?r2 "ustr ''warfarin''" "ustr ''aspirin''"]
  have hyp1: "(1::nat) < 2 \<and> (2::nat) < length ?names \<and>
          extract_one ascii_env (lower ascii_env (?names ! 1)) (db_list ascii_env [?r1, ?r2])
            = Some (ustr ''warfarin'', 100) \<and> (100::rat) \<le> 100 \<and>
          extract_one ascii_env (lower ascii_env (?names ! 2)) (db_list ascii_env [?r1, ?r2])
            = Some (ustr ''aspirin'', 100) \<and> (100::rat) \<le> 100 \<and>
          ?r2 \<in> set [?r1, ?r2] \<and> rec_matches ascii_env (ustr ''warfarin'') (ustr ''aspirin'') ?r2"
    unfolding n1 n2 by (intro conjI ij fa fb le r2 m2)
  have hyp2: "extract_one ascii_env (lower ascii_env (ustr ''warfarin'')) (db_list ascii_env [?r1, ?r2])
            = Some (ustr ''warfarin'', 100) \<and> (100::rat) \<le> 100 \<and>
          extract_one ascii_env (lower ascii_env (ustr ''aspirin'')) (db_list ascii_env [?r1, ?r2])
            = Some (ustr ''aspirin'', 100) \<and> (100::rat) \<le> 100"
    by (intro conjI fa fb le)
  have A: "mk_pair (?names ! 1) (?names ! 2) (ustr ''warfarin'') (ustr ''aspirin'') ?r2
              \<in> set (find_ddi_local ascii_env ?names [?r1, ?r2] 100)"
    by (rule T[THEN conjunct2, THEN conjunct2, THEN conjunct1, THEN mp, OF hyp1])
  have B: "length (find_ddi_local ascii_env [ustr ''warfarin'', ustr ''aspirin''] [?r1, ?r2] 100) = 1"
    by (rule T[THEN conjunct2, THEN conjunct2, THEN conjunct2, THEN mp, OF hyp2,
               THEN conjunct2, THEN mp, OF one])
  show ?thesis
    using A unfolding n1 n2 by (intro conjI wf_ascii_env B)
qed

text \<open>
  C7. An input name whose best fuzzy match scores below the threshold, or that has no
  match at all, appears in no returned pair, whatever the other names are; and with no
  records the result is empty. The function has no failing path: it returns a list on
  every input.
\<close>

theorem find_ddi_local_unmatched:
  "((\<forall>c sc. extract_one E (lower E d) (db_list E recs) = Some (c, sc) \<longrightarrow> sc < thr) \<longrightarrow>
      (\<forall>p \<in> set (find_ddi_local E names recs thr). drug_a p \<noteq> d \<and> drug_b p \<noteq> d)) \<and>
   find_ddi_local E names [] thr = []"
proof
  show "(\<forall>c sc. extract_one E (lower E d) (db_list E recs) = Some (c, sc) \<longrightarrow> sc < thr) \<longrightarrow>
      (\<forall>p \<in> set (find_ddi_local E names recs thr). drug_a p \<noteq> d \<and> drug_b p \<noteq> d)"
  proof
    assume low: "\<forall>c sc. extract_one E (lower E d) (db_list E recs) = Some (c, sc) \<longrightarrow> sc < thr"
    let ?fm = "fuzzy_match E (db_list E recs) thr"
    have none: "?fm d = None"
      unfolding fuzzy_match_def using low
      by (auto split: option.splits prod.splits)
    show "\<forall>p \<in> set (find_ddi_local E names recs thr). drug_a p \<noteq> d \<and> drug_b p \<noteq> d"
    proof
      fix p assume "p \<in> set (find_ddi_local E names recs thr)"
      then obtain ab where "p \<in> set (pair_hits E recs ?fm ab)"
        unfolding find_ddi_local_concat by auto
      from pair_hits_names[OF this] none show "drug_a p \<noteq> d \<and> drug_b p \<noteq> d" by auto
    qed
  qed
  show "find_ddi_local E names [] thr = []"
    unfolding find_ddi_local_concat
    by (simp add: pair_hits_def split: option.splits)
qed

theorem find_ddi_local_unmatched_witness:
  "ustr ''zzz'' \<notin> (drug_a ` set (find_ddi_local ascii_env
       [ustr ''warfarin'', ustr ''aspirin'', ustr ''zzz'']
       [\<lparr> rec_drug_a = ustr ''Aspirin'', rec_drug_b = ustr ''Warfarin'',
          rec_severity = Some (ustr ''High''), rec_description = None, rec_source = None \<rparr>] 85))
   \<and> ustr ''zzz'' \<notin> (drug_b ` set (find_ddi_local ascii_env
       [ustr ''warfarin'', ustr ''aspirin'', ustr ''zzz'']
       [\<lparr> rec_drug_a = ustr ''Aspirin'', rec_drug_b = ustr ''Warfarin'',
          rec_severity = Some (ustr ''High''), rec_description = None, rec_source = None \<rparr>] 85))"
proof -
  let ?r = "\<lparr> rec_drug_a = ustr ''Aspirin'', rec_drug_b = ustr ''Warfarin'',
        rec_severity = Some (ustr ''High''), rec_description = None, rec_source = None \<rparr>"
  have db: "db_list ascii_env [?r] = [ustr ''aspirin'', ustr ''warfarin'']"
    by (simp add: db_list_def ascii_env_def ustr_def ascii_lower_char_def)
  have lz: "lower ascii_env (ustr ''zzz'') = ustr ''zzz''"
    by (simp add: ascii_env_def ustr_def ascii_lower_char_def)
  have ex: "extract_one ascii_env = exact_extract" by (simp add: ascii_env_def)
  have low: "\<forall>c sc. extract_one ascii_env (lower ascii_env (ustr ''zzz'')) (db_list ascii_env [?r])
               = Some (c, sc) \<longrightarrow> sc < 85"
    unfolding db lz ex by (simp add: ustr_def)
  from find_ddi_local_unmatched[of ascii_env "ustr ''zzz''" "[?r]" 85
         "[ustr ''warfarin'', ustr ''aspirin'', ustr ''zzz'']"] low
  have "\<forall>p \<in> set (find_ddi_local ascii_env [ustr ''warfarin'', ustr ''aspirin'', ustr ''zzz'']
            [?r] 85). drug_a p \<noteq> ustr ''zzz'' \<and> drug_b p \<noteq> ustr ''zzz''"
    by blast
  then show ?thesis by (auto simp: image_iff)
qed

section \<open>The matcher against the declarative reading\<close>

lemma starts_with_iff: "starts_with s w \<longleftrightarrow> (\<exists>t. s = w @ t)"
  by (induction s w rule: starts_with.induct) auto

lemma star_sound:
  "rx_match E (Star c) s g k = Some res \<Longrightarrow>
     \<exists>x s'. s = x @ s' \<and> list_all (in_cls E c) x \<and> k s' g = Some res"
proof (induction s)
  case Nil
  then show ?case by simp
next
  case (Cons a s)
  show ?case
  proof (cases "in_cls E c a \<and> rx_match E (Star c) s g k \<noteq> None")
    case True
    then obtain r where r: "rx_match E (Star c) s g k = Some r" by auto
    with Cons.prems True have "r = res" by simp
    with r Cons.IH obtain x s' where "s = x @ s'" "list_all (in_cls E c) x" "k s' g = Some res"
      by blast
    with True show ?thesis by (intro exI[of _ "a # x"] exI[of _ s']) simp
  next
    case False
    with Cons.prems have "k (a # s) g = Some res" by (auto split: if_splits option.splits)
    then show ?thesis by (intro exI[of _ "[]"] exI[of _ "a # s"]) simp
  qed
qed

lemma rx_match_sound:
  "rx_match E r s g k = Some res \<Longrightarrow>
     \<exists>x s' g'. s = x @ s' \<and> matches E r x g g' \<and> k s' g' = Some res"
proof (induction r arbitrary: s g k res)
  case (Lit w)
  then show ?case by (auto simp: starts_with_iff split: if_splits)
next
  case (Seq a b)
  from Seq.prems have "rx_match E a s g (\<lambda>s' g'. rx_match E b s' g' k) = Some res" by simp
  from Seq.IH(1)[OF this] obtain u s1 g1 where
    1: "s = u @ s1" "matches E a u g g1" "rx_match E b s1 g1 k = Some res" by blast
  from Seq.IH(2)[OF 1(3)] obtain v s2 g2 where
    2: "s1 = v @ s2" "matches E b v g1 g2" "k s2 g2 = Some res" by blast
  show ?case
    using 1 2 by (intro exI[of _ "u @ v"] exI[of _ s2] exI[of _ g2]) auto
next
  case (Alt a b)
  show ?case
  proof (cases "rx_match E a s g k")
    case None
    with Alt.prems have "rx_match E b s g k = Some res" by simp
    from Alt.IH(2)[OF this] show ?thesis by auto
  next
    case (Some r)
    with Alt.prems have "rx_match E a s g k = Some res" by simp
    from Alt.IH(1)[OF this] show ?thesis by auto
  qed
next
  case (Opt a)
  show ?case
  proof (cases "rx_match E a s g k")
    case None
    with Opt.prems have "k s g = Some res" by simp
    then show ?thesis by (intro exI[of _ "[]"] exI[of _ s] exI[of _ g]) simp
  next
    case (Some r)
    with Opt.prems have "rx_match E a s g k = Some res" by simp
    from Opt.IH[OF this] show ?thesis by auto
  qed
next
  case (Star c)
  from star_sound[OF Star.prems] show ?case by auto
next
  case (Plus c)
  from Plus.prems obtain a t where s: "s = a # t" "in_cls E c a"
    "rx_match E (Star c) t g k = Some res"
    by (cases s) (auto split: if_splits)
  from star_sound[OF s(3)] obtain x s' where "t = x @ s'" "list_all (in_cls E c) x" "k s' g = Some res"
    by blast
  with s show ?case by (intro exI[of _ "a # x"] exI[of _ s'] exI[of _ g]) simp
next
  case (Grp n a)
  from Grp.prems have
    "rx_match E a s g (\<lambda>s' g'. k s' (g'(n \<mapsto> take (length s - length s') s))) = Some res"
    by simp
  from Grp.IH[OF this] obtain x s' g' where
    1: "s = x @ s'" "matches E a x g g'" "k s' (g'(n \<mapsto> take (length s - length s') s)) = Some res"
    by blast
  from 1(1) have "take (length s - length s') s = x" by simp
  with 1 have "s = x @ s' \<and> matches E (Grp n a) x g (g'(n \<mapsto> x)) \<and> k s' (g'(n \<mapsto> x)) = Some res"
    by auto
  then show ?case by blast
qed

lemma star_complete:
  "list_all (in_cls E c) x \<Longrightarrow> k s' g \<noteq> None \<Longrightarrow> rx_match E (Star c) (x @ s') g k \<noteq> None"
proof (induction x)
  case Nil
  then show ?case by (cases s') (auto split: option.splits)
next
  case (Cons a x)
  then show ?case by (auto split: option.splits)
qed

lemma matches_any_groups:
  "matches E r x g g' \<Longrightarrow> \<exists>h'. matches E r x h h'"
proof (induction r arbitrary: x g g' h)
  case (Seq a b)
  from Seq.prems obtain u v gm where
    1: "x = u @ v" "matches E a u g gm" "matches E b v gm g'" by auto
  from Seq.IH(1)[OF 1(2)] obtain hm where a: "matches E a u h hm" by blast
  from Seq.IH(2)[OF 1(3)] obtain h' where b: "matches E b v hm h'" by blast
  from 1(1) a b show ?case by auto
next
  case (Alt a b)
  from Alt.prems have "matches E a x g g' \<or> matches E b x g g'" by simp
  then show ?case
  proof
    assume "matches E a x g g'"
    from Alt.IH(1)[OF this] show ?thesis by auto
  next
    assume "matches E b x g g'"
    from Alt.IH(2)[OF this] show ?thesis by auto
  qed
next
  case (Opt a)
  from Opt.prems have "matches E a x g g' \<or> x = []" by auto
  then show ?case
  proof
    assume "matches E a x g g'"
    from Opt.IH[OF this] show ?thesis by auto
  next
    assume "x = []"
    then show ?thesis by auto
  qed
next
  case (Grp n a)
  from Grp.prems obtain gm where "matches E a x g gm" by auto
  from Grp.IH[OF this] show ?case by auto
qed auto

lemma rx_match_complete:
  "matches E r x g g' \<Longrightarrow> (\<And>h. k s' h \<noteq> None) \<Longrightarrow> rx_match E r (x @ s') g k \<noteq> None"
proof (induction r arbitrary: x g g' k s')
  case (Lit w)
  then show ?case by (auto simp: starts_with_iff)
next
  case (Seq a b)
  from Seq.prems(1) obtain u v gm where
    1: "x = u @ v" "matches E a u g gm" "matches E b v gm g'" by auto
  have b: "rx_match E b (v @ s') h k \<noteq> None" for h
  proof -
    from matches_any_groups[OF 1(3)] obtain h' where "matches E b v h h'" by blast
    then show ?thesis by (rule Seq.IH(2)[where k = k and s' = s']) (rule Seq.prems(2))
  qed
  have "rx_match E a (u @ (v @ s')) g (\<lambda>s1 g1. rx_match E b s1 g1 k) \<noteq> None"
    by (rule Seq.IH(1)[where k = "\<lambda>s1 g1. rx_match E b s1 g1 k" and s' = "v @ s'", OF 1(2)]) (rule b)
  then show ?case by (simp add: 1(1))
next
  case (Alt a b)
  from Alt.prems(1) have "matches E a x g g' \<or> matches E b x g g'" by simp
  then show ?case
  proof
    assume "matches E a x g g'"
    then have "rx_match E a (x @ s') g k \<noteq> None"
      by (rule Alt.IH(1)[where k = k and s' = s']) (rule Alt.prems(2))
    then show ?thesis by (cases "rx_match E a (x @ s') g k") simp_all
  next
    assume "matches E b x g g'"
    then have "rx_match E b (x @ s') g k \<noteq> None"
      by (rule Alt.IH(2)[where k = k and s' = s']) (rule Alt.prems(2))
    then show ?thesis by (cases "rx_match E a (x @ s') g k") simp_all
  qed
next
  case (Opt a)
  from Opt.prems(1) have "matches E a x g g' \<or> x = []" by auto
  then show ?case
  proof
    assume "matches E a x g g'"
    then have "rx_match E a (x @ s') g k \<noteq> None"
      by (rule Opt.IH[where k = k and s' = s']) (rule Opt.prems(2))
    then show ?thesis by (cases "rx_match E a (x @ s') g k") simp_all
  next
    assume "x = []"
    then show ?thesis using Opt.prems(2)[of g] by (cases "rx_match E a (x @ s') g k") simp_all
  qed
next
  case (Star c)
  from Star.prems(1) have "list_all (in_cls E c) x" by simp
  then show ?case by (rule star_complete) (rule Star.prems(2))
next
  case (Plus c)
  from Plus.prems(1) obtain a t where x: "x = a # t" "in_cls E c a" "list_all (in_cls E c) t"
    by (cases x) auto
  have "rx_match E (Star c) (t @ s') g k \<noteq> None"
    using x(3) by (rule star_complete) (rule Plus.prems(2))
  with x show ?case by simp
next
  case (Grp n a)
  from Grp.prems(1) obtain gm where m: "matches E a x g gm" by auto
  have "rx_match E a (x @ s') g
          (\<lambda>t h. k t (h(n \<mapsto> take (length (x @ s') - length t) (x @ s')))) \<noteq> None"
    by (rule Grp.IH[where k = "\<lambda>t h. k t (h(n \<mapsto> take (length (x @ s') - length t) (x @ s')))"
          and s' = s', OF m]) (rule Grp.prems(2))
  then show ?case by simp
qed

lemma match_at_iff:
  "match_at E r s \<noteq> None \<longleftrightarrow> (\<exists>x t g'. s = x @ t \<and> matches E r x (\<lambda>_. None) g')"
proof
  assume "match_at E r s \<noteq> None"
  then have "rx_match E r s (\<lambda>_. None) (\<lambda>s' g. Some (length s - length s', g)) \<noteq> None"
    unfolding match_at_def .
  then obtain res where "rx_match E r s (\<lambda>_. None) (\<lambda>s' g. Some (length s - length s', g)) = Some res"
    by (rule not_None_eq[THEN iffD1, THEN exE])
  from rx_match_sound[OF this] obtain x t g' where "s = x @ t" "matches E r x (\<lambda>_. None) g'"
    by (elim exE conjE)
  then show "\<exists>x t g'. s = x @ t \<and> matches E r x (\<lambda>_. None) g'"
    by (intro exI conjI)
next
  assume "\<exists>x t g'. s = x @ t \<and> matches E r x (\<lambda>_. None) g'"
  then obtain x t g' where 1: "s = x @ t" "matches E r x (\<lambda>_. None) g'" by blast
  have "rx_match E r (x @ t) (\<lambda>_. None) (\<lambda>s' g. Some (length s - length s', g)) \<noteq> None"
    by (rule rx_match_complete[where k = "\<lambda>s' g. Some (length s - length s', g)" and s' = t, OF 1(2)]) simp
  then show "match_at E r s \<noteq> None" unfolding match_at_def 1(1) .
qed

lemma search_from_None_iff:
  "search_from E r i s = None \<longleftrightarrow> (\<forall>n \<le> length s. match_at E r (drop n s) = None)"
proof (induction s arbitrary: i)
  case Nil
  show ?case by (cases "match_at E r []") auto
next
  case (Cons a s)
  have "(\<forall>n \<le> length (a # s). match_at E r (drop n (a # s)) = None) \<longleftrightarrow>
        match_at E r (a # s) = None \<and> (\<forall>n \<le> length s. match_at E r (drop n s) = None)"
  proof
    assume L: "\<forall>n \<le> length (a # s). match_at E r (drop n (a # s)) = None"
    from L[rule_format, of 0] have 0: "match_at E r (a # s) = None" by simp
    have "match_at E r (drop n s) = None" if "n \<le> length s" for n
      using L[rule_format, of "Suc n"] that by simp
    with 0 show "match_at E r (a # s) = None \<and> (\<forall>n \<le> length s. match_at E r (drop n s) = None)"
      by blast
  next
    assume R: "match_at E r (a # s) = None \<and> (\<forall>n \<le> length s. match_at E r (drop n s) = None)"
    show "\<forall>n \<le> length (a # s). match_at E r (drop n (a # s)) = None"
    proof (intro allI impI)
      fix n assume "n \<le> length (a # s)"
      then show "match_at E r (drop n (a # s)) = None"
        using R by (cases n) simp_all
    qed
  qed
  then have R: "(\<forall>n \<le> length (a # s). match_at E r (drop n (a # s)) = None) \<longleftrightarrow>
        match_at E r (a # s) = None \<and> search_from E r (Suc i) s = None"
    unfolding Cons.IH[of "Suc i"] .
  show ?case
  proof (cases "match_at E r (a # s)")
    case None
    then show ?thesis unfolding R by simp
  next
    case (Some p)
    then show ?thesis unfolding R by (cases p) simp
  qed
qed

lemma re_search_None_iff:
  "re_search E r s = None \<longleftrightarrow>
     \<not> (\<exists>pre x post g'. s = pre @ x @ post \<and> matches E r x (\<lambda>_. None) g')"
proof -
  have "(\<exists>n \<le> length s. match_at E r (drop n s) \<noteq> None) \<longleftrightarrow>
        (\<exists>pre x post g'. s = pre @ x @ post \<and> matches E r x (\<lambda>_. None) g')"
  proof
    assume "\<exists>n \<le> length s. match_at E r (drop n s) \<noteq> None"
    then obtain n where n: "n \<le> length s" "match_at E r (drop n s) \<noteq> None" by blast
    from n(2) obtain x t g' where 1: "drop n s = x @ t" "matches E r x (\<lambda>_. None) g'"
      unfolding match_at_iff by blast
    have "take n s @ drop n s = s" by (rule append_take_drop_id)
    then have "s = take n s @ x @ t" unfolding 1(1) by (rule sym)
    with 1(2) show "\<exists>pre x post g'. s = pre @ x @ post \<and> matches E r x (\<lambda>_. None) g'" by blast
  next
    assume "\<exists>pre x post g'. s = pre @ x @ post \<and> matches E r x (\<lambda>_. None) g'"
    then obtain pre x post g' where 1: "s = pre @ x @ post" "matches E r x (\<lambda>_. None) g'" by blast
    have "drop (length pre) s = x @ post" using 1(1) by simp
    with 1(2) have "match_at E r (drop (length pre) s) \<noteq> None"
      unfolding match_at_iff by blast
    moreover have "length pre \<le> length s" using 1(1) by simp
    ultimately show "\<exists>n \<le> length s. match_at E r (drop n s) \<noteq> None" by blast
  qed
  then have key: "(\<exists>pre x post g'. s = pre @ x @ post \<and> matches E r x (\<lambda>_. None) g') \<longleftrightarrow>
                  (\<exists>n \<le> length s. match_at E r (drop n s) \<noteq> None)"
    by (rule sym)
  have A: "re_search E r s = None \<longleftrightarrow> \<not> (\<exists>n \<le> length s. match_at E r (drop n s) \<noteq> None)"
    unfolding re_search_def search_from_None_iff
    by (simp only: not_ex de_Morgan_conj not_not imp_conv_disj)
  show ?thesis unfolding A key by (rule refl)
qed

lemma accepts_groups: "accepts E r x \<longleftrightarrow> (\<exists>g'. matches E r x g g')"
proof
  assume "accepts E r x"
  then obtain h where "matches E r x (\<lambda>_. None) h" by (auto simp: accepts_def)
  then show "\<exists>g'. matches E r x g g'" by (rule matches_any_groups)
next
  assume "\<exists>g'. matches E r x g g'"
  then obtain g' where "matches E r x g g'" ..
  then have "\<exists>h'. matches E r x (\<lambda>_. None) h'" by (rule matches_any_groups)
  then show "accepts E r x" by (simp add: accepts_def)
qed

lemma accepts_Lit: "accepts E (Lit w) x \<longleftrightarrow> x = w"
  by (simp add: accepts_def)

lemma accepts_Seq: "accepts E (Seq a b) x \<longleftrightarrow> (\<exists>u v. x = u @ v \<and> accepts E a u \<and> accepts E b v)"
proof
  assume "accepts E (Seq a b) x"
  then obtain g' u v gm where 1: "x = u @ v" "matches E a u (\<lambda>_. None) gm" "matches E b v gm g'"
    by (auto simp: accepts_def)
  from 1(2) have a: "accepts E a u" by (auto simp: accepts_def)
  from 1(3) have b: "accepts E b v" by (auto simp: accepts_groups[of E b v gm])
  from 1(1) a b have "x = u @ v \<and> accepts E a u \<and> accepts E b v" by simp
  then show "\<exists>u v. x = u @ v \<and> accepts E a u \<and> accepts E b v" by blast
next
  assume "\<exists>u v. x = u @ v \<and> accepts E a u \<and> accepts E b v"
  then obtain u v gm where 1: "x = u @ v" "matches E a u (\<lambda>_. None) gm" "accepts E b v"
    by (auto simp: accepts_def)
  from 1(3) obtain g' where 2: "matches E b v gm g'" by (auto simp: accepts_groups[of E b v gm])
  have "matches E (Seq a b) x (\<lambda>_. None) g'"
    using 1(1,2) 2 by auto
  then show "accepts E (Seq a b) x" by (auto simp: accepts_def)
qed

lemma accepts_Alt: "accepts E (Alt a b) x \<longleftrightarrow> accepts E a x \<or> accepts E b x"
  by (auto simp: accepts_def)

lemma accepts_Opt: "accepts E (Opt a) x \<longleftrightarrow> accepts E a x \<or> x = []"
  by (auto simp: accepts_def)

lemma accepts_Star: "accepts E (Star c) x \<longleftrightarrow> list_all (in_cls E c) x"
  by (simp add: accepts_def)

lemma accepts_Plus: "accepts E (Plus c) x \<longleftrightarrow> x \<noteq> [] \<and> list_all (in_cls E c) x"
  by (simp add: accepts_def)

lemma accepts_Grp: "accepts E (Grp n a) x \<longleftrightarrow> accepts E a x"
  by (auto simp: accepts_def)

lemma accepts_digits: "accepts E (Plus Digit) x \<longleftrightarrow> digits E x"
  by (simp add: accepts_Plus digits_def list_all_iff)

lemma accepts_spaces: "accepts E (Star Space) x \<longleftrightarrow> list_all is_space x"
  by (simp add: accepts_Star list_all_iff)

lemma accepts_unit: "accepts E unit_rx x \<longleftrightarrow> is_unit x"
  unfolding unit_rx_def is_unit_def by (simp add: accepts_Alt accepts_Lit)

lemma split3:
  "(\<exists>u v. x = u @ v \<and> P u \<and> (\<exists>a b. v = a @ b \<and> Q a \<and> R b)) \<longleftrightarrow>
   (\<exists>u a b. x = u @ a @ b \<and> P u \<and> Q a \<and> R b)"
  by blast

lemma split4:
  "(\<exists>u v. x = u @ v \<and> P u \<and> (\<exists>a b. v = a @ b \<and> Q a \<and> (\<exists>c d. b = c @ d \<and> R c \<and> S d))) \<longleftrightarrow>
   (\<exists>u a c d. x = u @ a @ c @ d \<and> P u \<and> Q a \<and> R c \<and> S d)"
  by blast

lemma split5:
  "(\<exists>u v. x = u @ v \<and> P u \<and> (\<exists>a b. v = a @ b \<and> Q a \<and>
      (\<exists>c d. b = c @ d \<and> R c \<and> (\<exists>w. d = w @ z \<and> S w)))) \<longleftrightarrow>
   (\<exists>u a c w. x = u @ a @ c @ w @ z \<and> P u \<and> Q a \<and> R c \<and> S w)"
  by blast

lemma accepts_fraction:
  "accepts E (Opt (Grp j (Seq (Lit (ustr ''.'')) (Plus Digit)))) v \<longleftrightarrow>
     v = [] \<or> (\<exists>fs. v = ustr ''.'' @ fs \<and> digits E fs)"
proof -
  have "accepts E (Seq (Lit (ustr ''.'')) (Plus Digit)) v \<longleftrightarrow>
          (\<exists>fs. v = ustr ''.'' @ fs \<and> digits E fs)"
    by (simp add: accepts_Seq accepts_Lit accepts_digits)
  then show ?thesis unfolding accepts_Opt accepts_Grp by blast
qed

lemma accepts_number:
  "accepts E (Grp i (Seq (Plus Digit) (Opt (Grp j (Seq (Lit (ustr ''.'')) (Plus Digit)))))) x
     \<longleftrightarrow> is_number E x"
proof -
  have "accepts E (Grp i (Seq (Plus Digit) (Opt (Grp j (Seq (Lit (ustr ''.'')) (Plus Digit)))))) x
     \<longleftrightarrow> (\<exists>u v. x = u @ v \<and> digits E u \<and> (v = [] \<or> (\<exists>fs. v = ustr ''.'' @ fs \<and> digits E fs)))"
    unfolding accepts_Grp[of E i] accepts_Seq[of E "Plus Digit"] accepts_digits accepts_fraction
    by (rule refl)
  also have "\<dots> \<longleftrightarrow> is_number E x"
  proof
    assume "\<exists>u v. x = u @ v \<and> digits E u \<and> (v = [] \<or> (\<exists>fs. v = ustr ''.'' @ fs \<and> digits E fs))"
    then obtain u v where 1: "x = u @ v" "digits E u" "v = [] \<or> (\<exists>fs. v = ustr ''.'' @ fs \<and> digits E fs)"
      by blast
    from 1(3) show "is_number E x"
    proof
      assume "v = []"
      with 1 show ?thesis unfolding is_number_def by simp
    next
      assume "\<exists>fs. v = ustr ''.'' @ fs \<and> digits E fs"
      then obtain fs where "v = ustr ''.'' @ fs" "digits E fs" by blast
      with 1 have "x = u @ ustr ''.'' @ fs \<and> digits E u \<and> digits E fs" by simp
      then show ?thesis unfolding is_number_def by blast
    qed
  next
    assume "is_number E x"
    then have "digits E x \<or> (\<exists>ds fs. x = ds @ ustr ''.'' @ fs \<and> digits E ds \<and> digits E fs)"
      unfolding is_number_def .
    then show "\<exists>u v. x = u @ v \<and> digits E u \<and> (v = [] \<or> (\<exists>fs. v = ustr ''.'' @ fs \<and> digits E fs))"
    proof
      assume "digits E x"
      then have "x = x @ [] \<and> digits E x \<and> ([] = [] \<or> (\<exists>fs. [] = ustr ''.'' @ fs \<and> digits E fs))"
        by simp
      then show ?thesis by (intro exI)
    next
      assume "\<exists>ds fs. x = ds @ ustr ''.'' @ fs \<and> digits E ds \<and> digits E fs"
      then obtain ds fs where 2: "x = ds @ ustr ''.'' @ fs" "digits E ds" "digits E fs" by blast
      then have "x = ds @ (ustr ''.'' @ fs) \<and> digits E ds \<and>
                 (ustr ''.'' @ fs = [] \<or> (\<exists>f. ustr ''.'' @ fs = ustr ''.'' @ f \<and> digits E f))"
        by blast
      then show ?thesis by (intro exI)
    qed
  qed
  finally show ?thesis .
qed

lemma accepts_max: "accepts E max_rx x \<longleftrightarrow> max_text E x"
  unfolding max_rx_def max_text_def
    accepts_Seq[of E "Grp 1 (Seq (Plus Digit) (Opt (Grp 2 (Seq (Lit (ustr ''.'')) (Plus Digit)))))"]
    accepts_Seq[of E "Star Space"] accepts_number accepts_spaces accepts_Grp[of E 3] accepts_unit
  by (rule split3)

lemma accepts_range_int:
  "accepts E (Opt (Grp 2 (Seq (Lit [endash]) (Grp 3 (Plus Digit))))) hi \<longleftrightarrow>
        (hi = [] \<or> (\<exists>h. hi = endash # h \<and> digits E h))"
proof -
  have "accepts E (Seq (Lit [endash]) (Grp 3 (Plus Digit))) hi \<longleftrightarrow>
          (\<exists>h. hi = endash # h \<and> digits E h)"
    by (simp add: accepts_Seq accepts_Lit accepts_Grp accepts_digits)
  then show ?thesis unfolding accepts_Opt accepts_Grp[of E 2] by blast
qed

lemma accepts_absolute: "accepts E absolute_rx x \<longleftrightarrow> absolute_text E x"
  unfolding absolute_rx_def absolute_text_def accepts_Seq[of E "Grp 1 (Plus Digit)"]
    accepts_Seq[of E "Opt (Grp 2 (Seq (Lit [endash]) (Grp 3 (Plus Digit))))"]
    accepts_Seq[of E "Star Space"] accepts_range_int accepts_Grp[of E 1] accepts_Grp[of E 4]
    accepts_digits accepts_spaces accepts_unit
  by (rule split4)

lemma accepts_range_num:
  "accepts E (Opt (Grp 3 (Seq (Lit [endash])
      (Grp 4 (Seq (Plus Digit) (Opt (Grp 5 (Seq (Lit (ustr ''.'')) (Plus Digit))))))))) hi \<longleftrightarrow>
        (hi = [] \<or> (\<exists>h. hi = endash # h \<and> is_number E h))"
proof -
  have "accepts E (Seq (Lit [endash])
      (Grp 4 (Seq (Plus Digit) (Opt (Grp 5 (Seq (Lit (ustr ''.'')) (Plus Digit))))))) hi \<longleftrightarrow>
          (\<exists>h. hi = endash # h \<and> is_number E h)"
    unfolding accepts_Seq[of E "Lit [endash]"] accepts_Lit accepts_number by simp
  then show ?thesis unfolding accepts_Opt accepts_Grp[of E 3] by blast
qed

lemma accepts_unit_kg:
  "accepts E (Seq (Grp 6 unit_rx) (Lit (ustr ''/kg''))) t \<longleftrightarrow>
        (\<exists>u. t = u @ ustr ''/kg'' \<and> is_unit u)"
  unfolding accepts_Seq accepts_Grp accepts_unit accepts_Lit by blast

lemma accepts_per_kg: "accepts E per_kg_rx x \<longleftrightarrow> per_kg_text E x"
  unfolding per_kg_rx_def per_kg_text_def
    accepts_Seq[of E "Grp 1 (Seq (Plus Digit) (Opt (Grp 2 (Seq (Lit (ustr ''.'')) (Plus Digit)))))"]
    accepts_Seq[of E "Opt (Grp 3 (Seq (Lit [endash])
      (Grp 4 (Seq (Plus Digit) (Opt (Grp 5 (Seq (Lit (ustr ''.'')) (Plus Digit))))))))"]
    accepts_Seq[of E "Star Space"] accepts_range_num accepts_unit_kg accepts_number accepts_spaces
  by (rule split5)

lemma re_search_None_contains:
  "re_search E r s = None \<longleftrightarrow> \<not> contains (accepts E r) s"
  unfolding re_search_None_iff contains_def accepts_def
  by (simp only: ex_simps)

lemma contains_per_kg: "contains (per_kg_text E) s \<longleftrightarrow> re_search E per_kg_rx s \<noteq> None"
proof -
  have "accepts E per_kg_rx = per_kg_text E" by (rule ext) (rule accepts_per_kg)
  then show ?thesis using re_search_None_contains[of E per_kg_rx s] by simp
qed

lemma contains_absolute: "contains (absolute_text E) s \<longleftrightarrow> re_search E absolute_rx s \<noteq> None"
proof -
  have "accepts E absolute_rx = absolute_text E" by (rule ext) (rule accepts_absolute)
  then show ?thesis using re_search_None_contains[of E absolute_rx s] by simp
qed

lemma contains_max: "contains (max_text E) s \<longleftrightarrow> re_search E max_rx s \<noteq> None"
proof -
  have "accepts E max_rx = max_text E" by (rule ext) (rule accepts_max)
  then show ?thesis using re_search_None_contains[of E max_rx s] by simp
qed

section \<open>Properties of the dose functions\<close>

text \<open>
  C8. A dose text no part of which is a per-kilogram dose (number, optional en dash and
  number, white space, unit, \<open>/kg\<close>) or an absolute dose (digits, optional en dash and
  digits, white space, unit) is returned unchanged by \<open>calculate_dose\<close>, and a maximum
  text no part of which is a number, white space and a unit is returned unchanged by
  \<open>adjust_max_for_age_weight\<close>: a value, not an exception, whatever the weight and
  the age.
\<close>

theorem fail_open:
  "(\<not> contains (per_kg_text E) s \<and> \<not> contains (absolute_text E) s \<longrightarrow>
      calculate_dose E s weight age = Inr s) \<and>
   (\<not> contains (max_text E) s \<longrightarrow> adjust_max_for_age_weight E s age weight = Inr s)"
proof -
  have pk: "accepts E per_kg_rx = per_kg_text E" by (rule ext) (rule accepts_per_kg)
  have ab: "accepts E absolute_rx = absolute_text E" by (rule ext) (rule accepts_absolute)
  have mx: "accepts E max_rx = max_text E" by (rule ext) (rule accepts_max)
  have 1: "calculate_dose E s weight age = Inr s"
    if "\<not> contains (per_kg_text E) s" "\<not> contains (absolute_text E) s"
  proof -
    have "re_search E per_kg_rx s = None" "re_search E absolute_rx s = None"
      using that unfolding re_search_None_contains pk ab by simp_all
    then show ?thesis unfolding calculate_dose_def by simp
  qed
  have 2: "adjust_max_for_age_weight E s age weight = Inr s" if "\<not> contains (max_text E) s"
  proof -
    have "re_search E max_rx s = None"
      using that unfolding re_search_None_contains mx by simp
    then show ?thesis unfolding adjust_max_for_age_weight_def by simp
  qed
  show ?thesis using 1 2 by blast
qed

theorem fail_open_witness:
  "calculate_dose ascii_env (ustr ''as needed'') (Fin 70) (Fin 30) = Inr (ustr ''as needed'') \<and>
   adjust_max_for_age_weight ascii_env (ustr ''see label'') (Fin 30) (Fin 70) = Inr (ustr ''see label'')"
proof -
  have d: "decimal ascii_env = (\<lambda>c. if 48 \<le> c \<and> c \<le> 57 then Some (c - 48) else None)"
    by (simp add: ascii_env_def)
  have 1: "re_search ascii_env per_kg_rx (ustr ''as needed'') = None"
    by (simp add: re_search_def match_at_def per_kg_rx_def ustr_def d)
  have 2: "re_search ascii_env absolute_rx (ustr ''as needed'') = None"
    by (simp add: re_search_def match_at_def absolute_rx_def ustr_def d)
  have 3: "re_search ascii_env max_rx (ustr ''see label'') = None"
    by (simp add: re_search_def match_at_def max_rx_def ustr_def d)
  have a: "\<not> contains (per_kg_text ascii_env) (ustr ''as needed'') \<and>
           \<not> contains (absolute_text ascii_env) (ustr ''as needed'')"
    unfolding contains_per_kg contains_absolute using 1 2 by simp
  have b: "\<not> contains (max_text ascii_env) (ustr ''see label'')"
    unfolding contains_max using 3 by simp
  from fail_open[of ascii_env "ustr ''as needed''" "Fin 70" "Fin 30", THEN conjunct1, THEN mp, OF a]
       fail_open[of ascii_env "ustr ''see label''" "Fin 70" "Fin 30", THEN conjunct2, THEN mp, OF b]
  show ?thesis by (rule conjI)
qed

section \<open>Rounding to binary64\<close>

text \<open>
  \<open>ilog2\<close> finds the binary exponent of a positive rational, so a product or a
  literal whose exponent \<open>k\<close> is known rounds to the multiple of \<open>2^(k-52)\<close> nearest
  to it.
\<close>

lemma pow2_pos: "0 < pow2 k"
  by (simp add: pow2_def)

lemma pow2_Suc: "pow2 (k + 1) = 2 * pow2 k"
proof -
  consider "0 \<le> k" | "k = - 1" | "k < - 1" by linarith
  then show ?thesis
  proof cases
    case 1
    then have "nat (k + 1) = Suc (nat k)" by simp
    with 1 show ?thesis by (simp add: pow2_def)
  next
    case 2
    then show ?thesis by (simp add: pow2_def)
  next
    case 3
    then have "nat (- k) = Suc (nat (- (k + 1)))" by simp
    with 3 show ?thesis by (simp add: pow2_def)
  qed
qed

lemma pow2_add_nat: "pow2 (k + int n) = 2 ^ n * pow2 k"
proof (induction n)
  case 0
  show ?case by simp
next
  case (Suc n)
  have "k + int (Suc n) = (k + int n) + 1" by simp
  then have "pow2 (k + int (Suc n)) = pow2 ((k + int n) + 1)" by (rule arg_cong)
  also have "\<dots> = 2 * pow2 (k + int n)" by (rule pow2_Suc)
  finally show ?case by (simp add: Suc.IH)
qed

lemma pow2_mono: "k \<le> l \<Longrightarrow> pow2 k \<le> pow2 l"
proof -
  assume "k \<le> l"
  then have l: "l = k + int (nat (l - k))" by simp
  have "(1::rat) \<le> 2 ^ nat (l - k)" by simp
  then have "pow2 k \<le> 2 ^ nat (l - k) * pow2 k"
    using pow2_pos[of k] by (simp add: mult_le_cancel_right1)
  then show ?thesis using pow2_add_nat[of k "nat (l - k)"] l by simp
qed

lemma pow2_unique:
  assumes "pow2 k \<le> q" "q < pow2 (k + 1)" "pow2 l \<le> q" "q < pow2 (l + 1)"
  shows "k = l"
proof (rule ccontr)
  assume "k \<noteq> l"
  then consider "k + 1 \<le> l" | "l + 1 \<le> k" by linarith
  then show False
  proof cases
    case 1
    from pow2_mono[OF 1] assms(2,3) show False by simp
  next
    case 2
    from pow2_mono[OF 2] assms(1,4) show False by simp
  qed
qed

lemma pow2_nat: "0 \<le> k \<Longrightarrow> pow2 k = 2 ^ nat k"
  by (simp add: pow2_def)

lemma pow2_diff: "pow2 (a - b) = pow2 a / pow2 b"
proof -
  have *: "pow2 (x + int n) / pow2 x = 2 ^ n" for x n
    using pow2_pos[of x] by (simp add: pow2_add_nat)
  show ?thesis
  proof (cases "b \<le> a")
    case True
    then have "a = b + int (nat (a - b))" by simp
    then have "pow2 a / pow2 b = 2 ^ nat (a - b)" using *[of b "nat (a - b)"] by simp
    also have "\<dots> = pow2 (a - b)" using True by (simp add: pow2_def)
    finally show ?thesis by simp
  next
    case False
    then have ab: "b = a + int (nat (b - a))" by simp
    have "pow2 b / pow2 a = 2 ^ nat (b - a)" using *[of a "nat (b - a)"] ab by simp
    then have "pow2 a / pow2 b = 1 / 2 ^ nat (b - a)"
      using pow2_pos[of a] pow2_pos[of b] by (simp add: field_simps)
    also have "\<dots> = pow2 (a - b)" using False by (simp add: pow2_def)
    finally show ?thesis by simp
  qed
qed

lemma blen_bounds:
  "0 < n \<Longrightarrow> 0 < blen n \<and> 2 ^ (nat (blen n) - 1) \<le> n \<and> n < 2 ^ nat (blen n)"
proof (induction n rule: blen.induct)
  case (1 n)
  note prems = "1.prems" and hyp = "1.IH"
  show ?case
  proof (cases "n div 2 = 0")
    case True
    with prems have n: "n = 1" by presburger
    have "blen 1 = 1" by (simp add: blen.simps[of 1] blen.simps[of 0])
    with n show ?thesis by simp
  next
    case False
    with prems have pos: "0 < n div 2" by presburger
    from prems have "\<not> n \<le> 0" by simp
    from hyp[OF this pos] have IH: "0 < blen (n div 2)"
      "2 ^ (nat (blen (n div 2)) - 1) \<le> n div 2" "n div 2 < 2 ^ nat (blen (n div 2))"
      by simp_all
    let ?b = "blen (n div 2)"
    have b: "blen n = 1 + ?b" using prems by (simp add: blen.simps[of n])
    have nb: "nat (blen n) = Suc (nat ?b)" using IH(1) b by simp
    have nb1: "nat (blen n) - 1 = Suc (nat ?b - 1)" using IH(1) b by simp
    have lo: "(2::int) ^ (nat (blen n) - 1) \<le> n"
    proof -
      have "(2::int) ^ (nat (blen n) - 1) = 2 * 2 ^ (nat ?b - 1)" unfolding nb1 by simp
      also have "\<dots> \<le> 2 * (n div 2)" using IH(2) by simp
      also have "\<dots> \<le> n" by presburger
      finally show ?thesis .
    qed
    have hi: "n < (2::int) ^ nat (blen n)"
    proof -
      have "n div 2 + 1 \<le> 2 ^ nat ?b" using IH(3) by simp
      then have "2 * (n div 2) + 2 \<le> 2 * 2 ^ nat ?b" by simp
      moreover have "n < 2 * (n div 2) + 2" by presburger
      ultimately have "n < 2 * 2 ^ nat ?b" by linarith
      then show ?thesis unfolding nb by simp
    qed
    from lo hi b IH(1) show ?thesis by simp
  qed
qed

lemma blen_pow2:
  assumes "0 < n"
  shows "pow2 (blen n - 1) \<le> of_int n" "of_int n < pow2 (blen n)"
proof -
  from blen_bounds[OF assms] have b: "0 < blen n" "2 ^ (nat (blen n) - 1) \<le> n" "n < 2 ^ nat (blen n)"
    by simp_all
  have e: "nat (blen n - 1) = nat (blen n) - 1" by simp
  have "(of_int (2 ^ (nat (blen n) - 1)) :: rat) \<le> of_int n" using b(2) by (simp only: of_int_le_iff)
  then show "pow2 (blen n - 1) \<le> of_int n" using b(1) by (simp add: pow2_def e)
  have "(of_int n :: rat) < of_int (2 ^ nat (blen n))" using b(3) by (simp only: of_int_less_iff)
  then show "of_int n < pow2 (blen n)" using b(1) by (simp add: pow2_def)
qed

lemma ilog2_correct:
  assumes "0 < q"
  shows "pow2 (ilog2 q) \<le> q \<and> q < pow2 (ilog2 q + 1)"
proof -
  obtain p d where pd: "quotient_of q = (p, d)" by (cases "quotient_of q")
  have d: "0 < d" using quotient_of_denom_pos[OF pd] .
  have q: "q = of_int p / of_int d" using quotient_of_div[OF pd] .
  have p: "0 < p" using assms d unfolding q by (simp add: zero_less_divide_iff)
  let ?K = "blen p - blen d"
  note bp = blen_pow2[OF p] and bd = blen_pow2[OF d]
  have dpos: "(0::rat) < of_int d" using d by simp
  have hi: "q < pow2 (?K + 1)"
  proof -
    have "pow2 (?K + 1) = pow2 (blen p) / pow2 (blen d - 1)"
      using pow2_diff[of "blen p" "blen d - 1"] by (simp add: algebra_simps)
    moreover have "of_int p / of_int d < pow2 (blen p) / pow2 (blen d - 1)"
      using bp(2) bd(1) p pow2_pos[of "blen d - 1"]
      by (intro frac_less) simp_all
    ultimately show ?thesis unfolding q by simp
  qed
  have lo: "pow2 (?K - 1) \<le> q"
  proof -
    have "pow2 (?K - 1) = pow2 (blen p - 1) / pow2 (blen d)"
      using pow2_diff[of "blen p - 1" "blen d"] by (simp add: algebra_simps)
    moreover have "pow2 (blen p - 1) / pow2 (blen d) \<le> of_int p / of_int d"
      using bp(1) bd(2) dpos pow2_pos[of "blen p - 1"]
      by (intro frac_le) simp_all
    ultimately show ?thesis unfolding q by simp
  qed
  show ?thesis
  proof (cases "pow2 ?K \<le> q")
    case True
    then have "ilog2 q = ?K" by (simp add: ilog2_def pd)
    with True hi show ?thesis by simp
  next
    case False
    then have "ilog2 q = ?K - 1" by (simp add: ilog2_def pd)
    with False lo show ?thesis by simp
  qed
qed

lemma ilog2_eq:
  assumes "pow2 k \<le> q" "q < pow2 (k + 1)"
  shows "ilog2 q = k"
proof -
  have "0 < q" using pow2_pos[of k] assms(1) by simp
  from ilog2_correct[OF this] assms show ?thesis
    by (intro pow2_unique[of "ilog2 q" q k]) simp_all
qed

lemma round_half_even_near:
  assumes "\<bar>x - of_int n\<bar> < 1 / 2"
  shows "round_half_even x = n"
proof (cases "of_int n \<le> x")
  case True
  then have "\<lfloor>x\<rfloor> = n" using assms by (intro floor_unique) (simp_all add: abs_less_iff)
  then show ?thesis using assms True by (simp add: round_half_even_def Let_def abs_less_iff)
next
  case False
  then have "\<lfloor>x\<rfloor> = n - 1" using assms by (intro floor_unique) (simp_all add: abs_less_iff)
  then show ?thesis using assms False by (simp add: round_half_even_def Let_def abs_less_iff)
qed

lemma round_half_even_tie:
  assumes "x = of_int n + 1 / 2"
  shows "round_half_even x = (if even n then n else n + 1)"
proof -
  have "\<lfloor>x\<rfloor> = n" unfolding assms by (intro floor_unique) simp_all
  then show ?thesis unfolding assms by (simp add: round_half_even_def Let_def)
qed

lemma binary64_near:
  assumes "pow2 k \<le> q" "q < pow2 (k + 1)" "- 1022 \<le> k"
    and "\<bar>q / pow2 (k - 52) - of_int n\<bar> < 1 / 2"
    and "n \<noteq> 0" "of_int n * pow2 (k - 52) < pow2 1024"
  shows "binary64 neg q = Fin (if neg then - (of_int n * pow2 (k - 52)) else of_int n * pow2 (k - 52))"
proof -
  have q: "q \<noteq> 0" using pow2_pos[of k] assms(1) by simp
  have e: "max (ilog2 q) (- 1022) = k" using ilog2_eq[OF assms(1,2)] assms(3) by simp
  have r: "round_half_even (q / pow2 (k - 52)) = n" by (rule round_half_even_near[OF assms(4)])
  have nz: "of_int n * pow2 (k - 52) \<noteq> 0" using assms(5) pow2_pos[of "k - 52"] by simp
  show ?thesis using q nz assms(6) by (simp add: binary64_def Let_def e r)
qed

lemma float_tenth: "float_lit (1 / 10) = Fin (3602879701896397 / 36028797018963968)"
proof -
  have "binary64 False (1 / 10) =
      Fin (if False then - (of_int 7205759403792794 * pow2 (- 4 - 52))
           else of_int 7205759403792794 * pow2 (- 4 - 52))"
    by (rule binary64_near) (simp_all add: pow2_def)
  then show ?thesis by (simp add: float_lit_def pow2_def)
qed

lemma float_twentieth: "float_lit (5 / 100) = Fin (3602879701896397 / 72057594037927936)"
proof -
  have "binary64 False (5 / 100) =
      Fin (if False then - (of_int 7205759403792794 * pow2 (- 5 - 52))
           else of_int 7205759403792794 * pow2 (- 5 - 52))"
    by (rule binary64_near) (simp_all add: pow2_def)
  then show ?thesis by (simp add: float_lit_def pow2_def)
qed

lemma float_half: "float_lit (1 / 2) = Fin (1 / 2)"
proof -
  have "binary64 False (1 / 2) =
      Fin (if False then - (of_int 4503599627370496 * pow2 (- 1 - 52))
           else of_int 4503599627370496 * pow2 (- 1 - 52))"
    by (rule binary64_near) (simp_all add: pow2_def)
  then show ?thesis by (simp add: float_lit_def pow2_def)
qed

section \<open>The weight estimator\<close>

text \<open>
  C9. \<open>estimate_weight_by_age\<close> is a function of the age alone and returns a value for
  every float: 4.0 below the threshold \<open>0.1\<close>, 8.0 from there to below 1, 15.0 from 1
  to below 5, 35.0 from 5 to below 12, and 70.0 from 12 on. The threshold is the
  binary64 value of the literal \<open>0.1\<close>, which is 3602879701896397 / 2^55. The negative
  zero and minus infinity give 4.0, plus infinity and not-a-number give 70.0. The ages
  0.05, 0.5, 3, 8 and 40 give 4.0, 8.0, 15.0, 35.0 and 70.0.
\<close>

theorem estimate_weight_by_age_bands:
  "float_lit (1 / 10) = Fin (3602879701896397 / 36028797018963968) \<and>
   estimate_weight_by_age (Fin r) =
     (if r < 3602879701896397 / 36028797018963968 then Fin 4
      else if r < 1 then Fin 8
      else if r < 5 then Fin 15
      else if r < 12 then Fin 35
      else Fin 70) \<and>
   estimate_weight_by_age NegZero = Fin 4 \<and>
   estimate_weight_by_age NInf = Fin 4 \<and>
   estimate_weight_by_age PInf = Fin 70 \<and>
   estimate_weight_by_age NaN = Fin 70 \<and>
   estimate_weight_by_age (float_lit (5 / 100)) = Fin 4 \<and>
   estimate_weight_by_age (float_lit (1 / 2)) = Fin 8 \<and>
   estimate_weight_by_age (Fin 3) = Fin 15 \<and>
   estimate_weight_by_age (Fin 8) = Fin 35 \<and>
   estimate_weight_by_age (Fin 40) = Fin 70"
  unfolding estimate_weight_by_age_def float_tenth float_twentieth float_half flt_def
  by simp

section \<open>What a match leaves in the groups\<close>

lemma match_at_sound:
  assumes "match_at E r s = Some (n, g')"
  shows "\<exists>x t. s = x @ t \<and> n = length x \<and> matches E r x (\<lambda>_. None) g'"
proof -
  from assms have "rx_match E r s (\<lambda>_. None) (\<lambda>s' g. Some (length s - length s', g)) = Some (n, g')"
    unfolding match_at_def .
  from rx_match_sound[OF this] obtain x t h where
    1: "s = x @ t" "matches E r x (\<lambda>_. None) h" "Some (length s - length t, h) = Some (n, g')"
    by (elim exE conjE)
  from 1(3) have "n = length s - length t" "h = g'" by simp_all
  with 1(1,2) have "s = x @ t \<and> n = length x \<and> matches E r x (\<lambda>_. None) g'" by simp
  then show ?thesis by (intro exI)
qed

lemma search_from_sound:
  "search_from E r i s = Some m \<Longrightarrow>
     \<exists>n. n \<le> length s \<and> m_start m = i + n \<and>
         match_at E r (drop n s) = Some (m_end m - m_start m, m_groups m) \<and>
         m_start m \<le> m_end m \<and>
         (\<forall>j < n. match_at E r (drop j s) = None)"
proof (induction s arbitrary: i)
  case Nil
  then obtain n g where "match_at E r [] = Some (n, g)" "m = \<lparr> m_start = i, m_end = i + n, m_groups = g \<rparr>"
    by (cases "match_at E r []") auto
  then have "0 \<le> length ([]::ustring) \<and> m_start m = i + 0 \<and>
         match_at E r (drop 0 []) = Some (m_end m - m_start m, m_groups m) \<and>
         m_start m \<le> m_end m \<and>
         (\<forall>j < 0. match_at E r (drop j []) = None)" by simp
  then show ?case by (rule exI)
next
  case (Cons a s)
  show ?case
  proof (cases "match_at E r (a # s)")
    case None
    with Cons.prems have "search_from E r (Suc i) s = Some m" by simp
    from Cons.IH[OF this] obtain n where n: "n \<le> length s" "m_start m = Suc i + n"
      "match_at E r (drop n s) = Some (m_end m - m_start m, m_groups m)"
      "m_start m \<le> m_end m"
      "\<forall>j < n. match_at E r (drop j s) = None" by (elim exE conjE)
    have "match_at E r (drop j (a # s)) = None" if "j < Suc n" for j
      using that None n(5) by (cases j) simp_all
    with n have "Suc n \<le> length (a # s) \<and> m_start m = i + Suc n \<and>
         match_at E r (drop (Suc n) (a # s)) = Some (m_end m - m_start m, m_groups m) \<and>
         m_start m \<le> m_end m \<and>
         (\<forall>j < Suc n. match_at E r (drop j (a # s)) = None)" by simp
    then show ?thesis by (rule exI)
  next
    case (Some p)
    obtain n g where p: "p = (n, g)" by (cases p)
    with Some Cons.prems have "m = \<lparr> m_start = i, m_end = i + n, m_groups = g \<rparr>" by simp
    with Some p have "0 \<le> length (a # s) \<and> m_start m = i + 0 \<and>
         match_at E r (drop 0 (a # s)) = Some (m_end m - m_start m, m_groups m) \<and>
         m_start m \<le> m_end m \<and>
         (\<forall>j < 0. match_at E r (drop j (a # s)) = None)" by simp
    then show ?thesis by (rule exI)
  qed
qed

lemma re_search_sound:
  assumes "re_search E r s = Some m"
  shows "\<exists>pre x post. s = pre @ x @ post \<and> matches E r x (\<lambda>_. None) (m_groups m) \<and>
           m_start m = length pre \<and> m_end m = length pre + length x"
proof -
  from assms have "search_from E r 0 s = Some m" unfolding re_search_def .
  from search_from_sound[OF this] obtain n where n: "n \<le> length s" "m_start m = n"
      "match_at E r (drop n s) = Some (m_end m - m_start m, m_groups m)" "m_start m \<le> m_end m"
    by auto
  from match_at_sound[OF n(3)] obtain x t where
    x: "drop n s = x @ t" "m_end m - m_start m = length x" "matches E r x (\<lambda>_. None) (m_groups m)"
    by (elim exE conjE)
  have "take n s @ drop n s = s" by (rule append_take_drop_id)
  then have s: "s = take n s @ x @ t" unfolding x(1) by (rule sym)
  have "length (take n s) = n" using n(1) by simp
  with s x n have "s = take n s @ x @ t \<and> matches E r x (\<lambda>_. None) (m_groups m) \<and>
           m_start m = length (take n s) \<and> m_end m = length (take n s) + length x"
    by simp
  then show ?thesis by (intro exI)
qed

lemma matches_SeqE:
  assumes "matches E (Seq a b) x g g'"
  obtains u v gm where "x = u @ v" "matches E a u g gm" "matches E b v gm g'"
  using assms by auto

lemma matches_GrpE:
  assumes "matches E (Grp n a) x g g'"
  obtains gm where "matches E a x g gm" "g' = gm(n \<mapsto> x)"
  using assms by auto

lemma matches_OptE:
  assumes "matches E (Opt a) x g g'"
  obtains "matches E a x g g'" | "x = []" "g' = g"
  using assms by auto

lemma matches_number:
  assumes "matches E (Grp i (Seq (Plus Digit) (Opt (Grp j (Seq (Lit (ustr ''.'')) (Plus Digit)))))) x g g'"
  shows "is_number E x \<and> g' i = Some x \<and> (\<forall>n. n \<noteq> i \<and> n \<noteq> j \<longrightarrow> g' n = g n)"
proof -
  from assms have "\<exists>h. matches E (Grp i (Seq (Plus Digit) (Opt (Grp j (Seq (Lit (ustr ''.'')) (Plus Digit)))))) x g h"
    by (rule exI[of _ g'])
  then have "accepts E (Grp i (Seq (Plus Digit) (Opt (Grp j (Seq (Lit (ustr ''.'')) (Plus Digit)))))) x"
    by (simp only: accepts_groups[of E _ x g])
  then have num: "is_number E x" by (simp only: accepts_number)
  from assms obtain gm where gm: "matches E (Seq (Plus Digit) (Opt (Grp j (Seq (Lit (ustr ''.'')) (Plus Digit))))) x g gm"
    "g' = gm(i \<mapsto> x)" by (rule matches_GrpE)
  from gm(1) obtain u v g1 where uv: "matches E (Plus Digit) u g g1"
    "matches E (Opt (Grp j (Seq (Lit (ustr ''.'')) (Plus Digit)))) v g1 gm"
    by (rule matches_SeqE)
  from uv(1) have g1: "g1 = g" by simp
  from uv(2) have "\<forall>n. n \<noteq> j \<longrightarrow> gm n = g1 n"
  proof (rule matches_OptE)
    assume "matches E (Grp j (Seq (Lit (ustr ''.'')) (Plus Digit))) v g1 gm"
    then obtain h where "matches E (Seq (Lit (ustr ''.'')) (Plus Digit)) v g1 h" "gm = h(j \<mapsto> v)"
      by (rule matches_GrpE)
    then show ?thesis by auto
  next
    assume "v = []" "gm = g1"
    then show ?thesis by simp
  qed
  with gm(2) g1 num show ?thesis by simp
qed

lemma matches_unit:
  assumes "matches E (Grp i unit_rx) x g g'"
  shows "is_unit x \<and> g' = g(i \<mapsto> x)"
  using assms unfolding unit_rx_def is_unit_def by auto

lemma matches_max:
  assumes "matches E max_rx x g g'"
  shows "\<exists>v sp u. x = v @ sp @ u \<and> is_number E v \<and> list_all is_space sp \<and> is_unit u \<and>
           g' 1 = Some v \<and> g' 3 = Some u"
proof -
  let ?N = "Grp 1 (Seq (Plus Digit) (Opt (Grp 2 (Seq (Lit (ustr ''.'')) (Plus Digit)))))"
  from assms have "matches E (Seq ?N (Seq (Star Space) (Grp 3 unit_rx))) x g g'"
    unfolding max_rx_def .
  then obtain v t g1 where 1: "x = v @ t" "matches E ?N v g g1"
    "matches E (Seq (Star Space) (Grp 3 unit_rx)) t g1 g'"
    by (rule matches_SeqE)
  from 1(3) obtain sp u g2 where 2: "t = sp @ u" "matches E (Star Space) sp g1 g2"
    "matches E (Grp 3 unit_rx) u g2 g'" by (rule matches_SeqE)
  from 2(2) have sp: "list_all is_space sp" "g2 = g1" by (simp_all add: list_all_iff)
  from matches_number[OF 1(2)] have n: "is_number E v" "g1 1 = Some v" by simp_all
  from matches_unit[OF 2(3)] have u: "is_unit u" "g' = g2(3 \<mapsto> u)" by simp_all
  from 1(1) 2(1) sp n u have "x = v @ sp @ u \<and> is_number E v \<and> list_all is_space sp \<and> is_unit u \<and>
           g' 1 = Some v \<and> g' 3 = Some u" by simp
  then show ?thesis by (intro exI)
qed

lemma matches_per_kg:
  assumes "matches E per_kg_rx x g g'"
  shows "\<exists>lo hi sp u. x = lo @ hi @ sp @ u @ ustr ''/kg'' \<and> is_number E lo \<and>
           list_all is_space sp \<and> is_unit u \<and> g' 1 = Some lo \<and> g' 6 = Some u \<and>
           ((hi = [] \<and> g' 4 = g 4) \<or> (\<exists>h. hi = endash # h \<and> is_number E h \<and> g' 4 = Some h))"
proof -
  let ?N1 = "Grp 1 (Seq (Plus Digit) (Opt (Grp 2 (Seq (Lit (ustr ''.'')) (Plus Digit)))))"
  let ?N4 = "Grp 4 (Seq (Plus Digit) (Opt (Grp 5 (Seq (Lit (ustr ''.'')) (Plus Digit)))))"
  let ?R = "Opt (Grp 3 (Seq (Lit [endash]) ?N4))"
  from assms have "matches E (Seq ?N1 (Seq ?R (Seq (Star Space)
                     (Seq (Grp 6 unit_rx) (Lit (ustr ''/kg'')))))) x g g'"
    unfolding per_kg_rx_def .
  then obtain lo t1 g1 where 1: "x = lo @ t1" "matches E ?N1 lo g g1"
    "matches E (Seq ?R (Seq (Star Space) (Seq (Grp 6 unit_rx) (Lit (ustr ''/kg''))))) t1 g1 g'"
    by (rule matches_SeqE)
  from 1(3) obtain hi t2 g2 where 2: "t1 = hi @ t2" "matches E ?R hi g1 g2"
    "matches E (Seq (Star Space) (Seq (Grp 6 unit_rx) (Lit (ustr ''/kg'')))) t2 g2 g'"
    by (rule matches_SeqE)
  from 2(3) obtain sp t3 g3 where 3: "t2 = sp @ t3" "matches E (Star Space) sp g2 g3"
    "matches E (Seq (Grp 6 unit_rx) (Lit (ustr ''/kg''))) t3 g3 g'"
    by (rule matches_SeqE)
  from 3(3) obtain u t4 g4 where 4: "t3 = u @ t4" "matches E (Grp 6 unit_rx) u g3 g4"
    "matches E (Lit (ustr ''/kg'')) t4 g4 g'"
    by (rule matches_SeqE)
  from 4(3) have t4: "t4 = ustr ''/kg''" "g' = g4" by simp_all
  from matches_unit[OF 4(2)] have u: "is_unit u" "g4 = g3(6 \<mapsto> u)" by simp_all
  from 3(2) have sp: "list_all is_space sp" "g3 = g2" by (simp_all add: list_all_iff)
  from matches_number[OF 1(2)] have lo: "is_number E lo" "g1 1 = Some lo"
    "\<forall>n. n \<noteq> 1 \<and> n \<noteq> 2 \<longrightarrow> g1 n = g n" by simp_all
  have hi: "((hi = [] \<and> g2 = g1) \<or> (\<exists>h. hi = endash # h \<and> is_number E h \<and> g2 4 = Some h \<and> g2 1 = g1 1))"
    using 2(2)
  proof (rule matches_OptE)
    assume "matches E (Grp 3 (Seq (Lit [endash]) ?N4)) hi g1 g2"
    then obtain gm where a: "matches E (Seq (Lit [endash]) ?N4) hi g1 gm" "g2 = gm(3 \<mapsto> hi)"
      by (rule matches_GrpE)
    from a(1) obtain d h gl where b: "hi = d @ h" "matches E (Lit [endash]) d g1 gl"
      "matches E ?N4 h gl gm" by (rule matches_SeqE)
    from b(2) have d: "d = [endash]" "gl = g1" by simp_all
    from matches_number[OF b(3)] have h: "is_number E h" "gm 4 = Some h"
      "\<forall>n. n \<noteq> 4 \<and> n \<noteq> 5 \<longrightarrow> gm n = gl n" by simp_all
    from a(2) b(1) d h have "hi = endash # h \<and> is_number E h \<and> g2 4 = Some h \<and> g2 1 = g1 1"
      by simp
    then show ?thesis by blast
  next
    assume "hi = []" "g2 = g1"
    then show ?thesis by simp
  qed
  have g1: "g' 1 = g2 1" "g' 4 = g2 4" "g' 6 = Some u" using t4 u sp by simp_all
  have g14: "g1 4 = g 4" using lo(3) by simp
  from hi have "(hi = [] \<and> g' 4 = g 4) \<or> (\<exists>h. hi = endash # h \<and> is_number E h \<and> g' 4 = Some h)"
    using g1 g14 by auto
  moreover from hi have "g' 1 = Some lo" using g1 lo(2) by auto
  moreover have "x = lo @ hi @ sp @ u @ ustr ''/kg''" using 1(1) 2(1) 3(1) 4(1) t4 by simp
  ultimately have "x = lo @ hi @ sp @ u @ ustr ''/kg'' \<and> is_number E lo \<and>
           list_all is_space sp \<and> is_unit u \<and> g' 1 = Some lo \<and> g' 6 = Some u \<and>
           ((hi = [] \<and> g' 4 = g 4) \<or> (\<exists>h. hi = endash # h \<and> is_number E h \<and> g' 4 = Some h))"
    using lo(1) sp(1) u(1) g1(3) by simp
  then show ?thesis by (intro exI)
qed

lemma matches_absolute:
  assumes "matches E absolute_rx x g g'"
  shows "\<exists>lo hi sp u. x = lo @ hi @ sp @ u \<and> digits E lo \<and>
           list_all is_space sp \<and> is_unit u \<and> g' 1 = Some lo \<and> g' 4 = Some u \<and>
           ((hi = [] \<and> g' 3 = g 3) \<or> (\<exists>h. hi = endash # h \<and> digits E h \<and> g' 3 = Some h))"
proof -
  let ?R = "Opt (Grp 2 (Seq (Lit [endash]) (Grp 3 (Plus Digit))))"
  from assms have "matches E (Seq (Grp 1 (Plus Digit)) (Seq ?R (Seq (Star Space) (Grp 4 unit_rx)))) x g g'"
    unfolding absolute_rx_def .
  then obtain lo t1 g1 where 1: "x = lo @ t1" "matches E (Grp 1 (Plus Digit)) lo g g1"
    "matches E (Seq ?R (Seq (Star Space) (Grp 4 unit_rx))) t1 g1 g'"
    by (rule matches_SeqE)
  from 1(3) obtain hi t2 g2 where 2: "t1 = hi @ t2" "matches E ?R hi g1 g2"
    "matches E (Seq (Star Space) (Grp 4 unit_rx)) t2 g2 g'"
    by (rule matches_SeqE)
  from 2(3) obtain sp u g3 where 3: "t2 = sp @ u" "matches E (Star Space) sp g2 g3"
    "matches E (Grp 4 unit_rx) u g3 g'"
    by (rule matches_SeqE)
  from matches_unit[OF 3(3)] have u: "is_unit u" "g' = g3(4 \<mapsto> u)" by simp_all
  from 3(2) have sp: "list_all is_space sp" "g3 = g2" by (simp_all add: list_all_iff)
  from 1(2) have lo: "digits E lo" "g1 = g(1 \<mapsto> lo)"
    by (auto simp: digits_def list_all_iff)
  have hi: "((hi = [] \<and> g2 = g1) \<or> (\<exists>h. hi = endash # h \<and> digits E h \<and> g2 3 = Some h \<and> g2 1 = g1 1))"
    using 2(2)
  proof (rule matches_OptE)
    assume "matches E (Grp 2 (Seq (Lit [endash]) (Grp 3 (Plus Digit)))) hi g1 g2"
    then obtain gm where a: "matches E (Seq (Lit [endash]) (Grp 3 (Plus Digit))) hi g1 gm" "g2 = gm(2 \<mapsto> hi)"
      by (rule matches_GrpE)
    from a(1) obtain d h gl where b: "hi = d @ h" "matches E (Lit [endash]) d g1 gl"
      "matches E (Grp 3 (Plus Digit)) h gl gm" by (rule matches_SeqE)
    from b(2) have d: "d = [endash]" "gl = g1" by simp_all
    from b(3) have h: "digits E h" "gm = gl(3 \<mapsto> h)" by (auto simp: digits_def list_all_iff)
    from a(2) b(1) d h have "hi = endash # h \<and> digits E h \<and> g2 3 = Some h \<and> g2 1 = g1 1"
      by simp
    then show ?thesis by blast
  next
    assume "hi = []" "g2 = g1"
    then show ?thesis by simp
  qed
  have g1: "g' 1 = g2 1" "g' 3 = g2 3" "g' 4 = Some u" using u sp by simp_all
  have g13: "g1 3 = g 3" "g1 1 = Some lo" using lo(2) by simp_all
  from hi have "(hi = [] \<and> g' 3 = g 3) \<or> (\<exists>h. hi = endash # h \<and> digits E h \<and> g' 3 = Some h)"
    using g1 g13 by auto
  moreover from hi have "g' 1 = Some lo" using g1 g13 by auto
  moreover have "x = lo @ hi @ sp @ u" using 1(1) 2(1) 3(1) by simp
  ultimately have "x = lo @ hi @ sp @ u \<and> digits E lo \<and>
           list_all is_space sp \<and> is_unit u \<and> g' 1 = Some lo \<and> g' 4 = Some u \<and>
           ((hi = [] \<and> g' 3 = g 3) \<or> (\<exists>h. hi = endash # h \<and> digits E h \<and> g' 3 = Some h))"
    using lo(1) sp(1) u(1) g1(3) by simp
  then show ?thesis by (intro exI)
qed

end
